theory Spec2Isabelle
  imports Main "HOL-Library.Word"
begin

section \<open>bootlogd: the log writer\<close>

text \<open>
  Bytes are \<open>unsigned char\<close>. The log file receives two kinds of writes from
  \<open>writelog\<close>: the \<open>fprintf(fp, "%.24s: ", s)\<close> of a timestamp and the
  \<open>fwrite\<close> of one byte. The k-th reading of the wall clock in the life of the
  process (\<open>time\<close> followed by \<open>ctime\<close>) is \<open>clock k\<close>; the clock
  belongs to the environment, so it is a parameter of \<open>file_bytes\<close>, which gives the
  bytes that reach the file.
\<close>

type_synonym byte = "8 word"

datatype logitem = Stamp nat | Data byte

fun file_bytes :: "(nat \<Rightarrow> byte list) \<Rightarrow> logitem list \<Rightarrow> byte list" where
  "file_bytes clock [] = []"
| "file_bytes clock (Stamp k # xs) = take 24 (clock k) @ [58, 32] @ file_bytes clock xs"
| "file_bytes clock (Data c # xs) = c # file_bytes clock xs"

fun data_of :: "logitem list \<Rightarrow> byte list" where
  "data_of [] = []"
| "data_of (Stamp k # xs) = data_of xs"
| "data_of (Data c # xs) = c # data_of xs"

fun stamps_of :: "logitem list \<Rightarrow> nat list" where
  "stamps_of [] = []"
| "stamps_of (Stamp k # xs) = k # stamps_of xs"
| "stamps_of (Data c # xs) = stamps_of xs"

text \<open>
  The statics of \<open>writelog\<close>: \<open>first_run\<close> and \<open>inside_esc\<close>;
  \<open>ticks\<close> counts the clock readings made so far.
\<close>

record logger =
  first_run :: bool
  inside_esc :: int
  ticks :: nat

definition logger_init :: logger where
  "logger_init = \<lparr> first_run = True, inside_esc = 0, ticks = 0 \<rparr>"

text \<open>
  The escape filter of one byte (the \<open>if (inside_esc == 1) ... else if (inside_esc == 2)
  ... else ...\<close> of the loop body): the result is \<open>(ignore, inside_esc)\<close>.
\<close>

definition esc_step :: "int \<Rightarrow> byte \<Rightarrow> bool \<times> int" where
  "esc_step esc c =
     (if esc = 1 then
        (if c = 91 then (True, 2)
         else (64 \<le> c \<and> c \<le> 95, 0))
      else if esc = 2 then
        (if (48 \<le> c \<and> c \<le> 57) \<or> c = 59 \<or> (32 \<le> c \<and> c \<le> 47) then
           (if esc \<noteq> 0 then (True, esc) else (False, esc))
         else if 64 \<le> c \<and> c \<le> 126 then
           (if esc \<noteq> 0 then (True, 0) else (False, esc))
         else (False, esc))
      else
        (if c = 13 then (True, esc)
         else if c = 27 then (True, 1)
         else (False, esc)))"

text \<open>
  One turn of the loop of \<open>writelog\<close>: \<open>prev\<close> is the byte at \<open>ptr - 1\<close>,
  \<open>c\<close> the byte at \<open>ptr\<close>.
\<close>

definition writelog_byte :: "logger \<Rightarrow> byte \<Rightarrow> byte \<Rightarrow> logger \<times> logitem list" where
  "writelog_byte L prev c =
     (let stamp = (prev = 10 \<or> first_run L);
          L1 = (if stamp then L\<lparr> first_run := False, ticks := Suc (ticks L) \<rparr> else L);
          pre = (if stamp then [Stamp (ticks L)] else []);
          (ignore, esc) = esc_step (inside_esc L1) c
      in (L1\<lparr> inside_esc := esc \<rparr>, pre @ (if ignore then [] else [Data c])))"

text \<open>
  The loop \<open>for (i = 0; i < len; i++)\<close> over the \<open>len\<close> bytes at \<open>ptr\<close>;
  \<open>prev\<close> is the byte stored just before the span, read as \<open>*(ptr-1)\<close> in the
  first turn.
\<close>

fun writelog_loop :: "logger \<Rightarrow> byte \<Rightarrow> byte list \<Rightarrow> logger \<times> logitem list" where
  "writelog_loop L prev [] = (L, [])"
| "writelog_loop L prev (c # cs) =
     (let (L1, out1) = writelog_byte L prev c;
          (L2, out2) = writelog_loop L1 c cs
      in (L2, out1 @ out2))"

text \<open>
  Successive calls of \<open>writelog\<close>, the statics carried from one call to the next. Each
  call comes with the byte stored before its span.
\<close>

fun writelog_calls :: "logger \<Rightarrow> (byte \<times> byte list) list \<Rightarrow> logger \<times> logitem list" where
  "writelog_calls L [] = (L, [])"
| "writelog_calls L ((prev, bs) # calls) =
     (let (L1, out1) = writelog_loop L prev bs;
          (L2, out2) = writelog_calls L1 calls
      in (L2, out1 @ out2))"

text \<open>The filter alone, over a span: the bytes kept and the state reached.\<close>

fun esc_run :: "int \<Rightarrow> byte list \<Rightarrow> byte list \<times> int" where
  "esc_run esc [] = ([], esc)"
| "esc_run esc (c # cs) =
     (let (ignore, esc1) = esc_step esc c;
          (kept, esc2) = esc_run esc1 cs
      in ((if ignore then kept else c # kept), esc2))"


section \<open>The ring buffer, the consoles and the main loop\<close>

text \<open>
  What the program asks of the system is recorded in a trace; the answers come from the
  environment. \<open>Write fd bs\<close> is a \<open>write\<close> on \<open>fd\<close> that accepted the bytes
  \<open>bs\<close>, \<open>WriteFailed fd e\<close> one that returned -1 with \<open>errno = e\<close>,
  \<open>OpenNb path r\<close> the \<open>open\<close> of \<open>open_nb\<close> with its result. Messages
  on stderr are left out.
\<close>

datatype syscall =
    Write int "byte list"
  | WriteFailed int int
  | Close int
  | OpenNb string int
  | OpenRdwr string int
  | Rename string string
  | Fopen string bool
  | Fflush
  | Fdatasync
  | Fclose

text \<open>The result of one \<open>write\<close>: the count accepted, or -1 with an errno.\<close>

datatype wres = Wrote nat | WriteErr int

definition EIO :: int where
  "EIO = 5"

record real_cons =
  name :: string
  fd :: int

text \<open>
  The globals of the program, the locals of \<open>main\<close> that live across the loop, the
  log file and the trace. \<open>inptr\<close> and \<open>outptr\<close> are offsets into
  \<open>ringbuf\<close>, and \<open>endptr\<close> is its length (1 MiB in the source, any length
  here). \<open>below\<close> is the byte that \<open>*(ptr-1)\<close> finds when \<open>ptr\<close> is
  \<open>ringbuf\<close> itself: it lies outside the array and the program never writes it.
  \<open>fp\<close> tells whether the log file is open, \<open>logfile\<close> holds what has been
  written to it.
\<close>

record state =
  ringbuf :: "byte list"
  below :: byte
  inptr :: nat
  outptr :: nat
  got_signal :: int
  didnl :: int
  createlogfile :: int
  syncalot :: int
  lg :: logger
  logpath :: string
  rotate :: int
  fp :: bool
  logfile :: "logitem list"
  ptm :: int
  pts :: int
  cons :: "real_cons list"
  consoles_left :: int
  trace :: "syscall list"

definition endptr :: "state \<Rightarrow> nat" where
  "endptr s = length (ringbuf s)"

text \<open>
  \<open>writelog(fp, ptr, len)\<close> on the program state: the loop over the span, the flush
  when a timestamp was written (\<open>dosync\<close>), and the advance of \<open>outptr\<close>.
\<close>

definition writelog :: "state \<Rightarrow> nat \<Rightarrow> nat \<Rightarrow> state" where
  "writelog s ptr len =
     (let prev = (if ptr = 0 then below s else ringbuf s ! (ptr - 1));
          (L, out) = writelog_loop (lg s) prev (take len (drop ptr (ringbuf s)));
          dosync = (stamps_of out \<noteq> []);
          sync = (if dosync then Fflush # (if syncalot s \<noteq> 0 then [Fdatasync] else []) else []);
          outp = outptr s + len
      in s\<lparr> lg := L, logfile := logfile s @ out, trace := trace s @ sync,
            outptr := (if outp \<ge> endptr s then 0 else outp) \<rparr>)"

text \<open>\<open>open_nb\<close>: \<open>r\<close> is what \<open>open\<close> returns.\<close>

definition open_nb :: "syscall list \<Rightarrow> string \<Rightarrow> int \<Rightarrow> int \<times> syscall list" where
  "open_nb tr buf r = (if r < 0 then (- 1, tr @ [OpenNb buf r]) else (r, tr @ [OpenNb buf r]))"

text \<open>
  \<open>write_err\<close>: the new descriptor, the trace, and the answers of \<open>open\<close> not
  yet used; \<open>None\<close> when the environment has no answer left for the \<open>open\<close>.
\<close>

definition write_err ::
  "syscall list \<Rightarrow> int list \<Rightarrow> int \<Rightarrow> int \<Rightarrow> string \<Rightarrow> int \<Rightarrow> (int \<times> syscall list \<times> int list) option" where
  "write_err tr opens pts' realfd realcons e =
     (if e \<noteq> EIO then Some (- 1, tr @ [Close pts'], opens)
      else
        (case opens of
           [] \<Rightarrow> None
         | r # opens' \<Rightarrow>
             (let (fd', tr') = open_nb (tr @ [Close realfd]) realcons r
              in if fd' < 0 then Some (- 1, tr' @ [Close pts'], opens')
                 else Some (fd', tr', opens'))))"

text \<open>
  The loop \<open>while (m > 0)\<close> for the console \<open>considx\<close>: \<open>rest\<close> are the
  \<open>m\<close> bytes at \<open>p\<close>. Each \<open>write\<close> takes one answer from \<open>writes\<close>;
  the result is \<open>None\<close> when the answers run out before the loop ends.
\<close>

fun console_write ::
  "wres list \<Rightarrow> int list \<Rightarrow> state \<Rightarrow> nat \<Rightarrow> byte list \<Rightarrow> (state \<times> wres list \<times> int list) option" where
  "console_write writes opens s considx rest =
     (if rest = [] then Some (s, writes, opens)
      else
        (case writes of
           [] \<Rightarrow> None
         | Wrote i # writes' \<Rightarrow>
             console_write writes' opens
               (s\<lparr> trace := trace s @ [Write (fd (cons s ! considx)) (take i rest)] \<rparr>)
               considx (drop i rest)
         | WriteErr e # writes' \<Rightarrow>
             (case write_err (trace s @ [WriteFailed (fd (cons s ! considx)) e]) opens (pts s)
                     (fd (cons s ! considx)) (name (cons s ! considx)) e of
                None \<Rightarrow> None
              | Some (fd', tr', opens') \<Rightarrow>
                  (let s1 = s\<lparr> trace := tr',
                                cons := (cons s)[considx := (cons s ! considx)\<lparr> fd := fd' \<rparr>] \<rparr>
                   in if fd' \<ge> 0 then console_write writes' opens' s1 considx rest
                      else
                        (let s2 = s1\<lparr> consoles_left := consoles_left s1 - 1 \<rparr>
                         in Some ((if consoles_left s2 \<le> 0 then s2\<lparr> got_signal := 1 \<rparr> else s2),
                                  writes', opens'))))))"

text \<open>
  The loop \<open>for (considx = 0; considx < num_consoles; considx++)\<close> over the span
  just read; \<open>num_consoles\<close> is the length of \<open>cons\<close>.
\<close>

fun fanout_loop ::
  "nat list \<Rightarrow> wres list \<Rightarrow> int list \<Rightarrow> state \<Rightarrow> byte list \<Rightarrow> (state \<times> wres list \<times> int list) option" where
  "fanout_loop [] writes opens s bs = Some (s, writes, opens)"
| "fanout_loop (considx # rest) writes opens s bs =
     (if fd (cons s ! considx) < 0 then fanout_loop rest writes opens s bs
      else
        (case console_write writes opens s considx bs of
           None \<Rightarrow> None
         | Some (s1, writes1, opens1) \<Rightarrow> fanout_loop rest writes1 opens1 s1 bs))"

definition fanout ::
  "wres list \<Rightarrow> int list \<Rightarrow> state \<Rightarrow> byte list \<Rightarrow> (state \<times> wres list \<times> int list) option" where
  "fanout writes opens s bs = fanout_loop [0..<length (cons s)] writes opens s bs"

text \<open>
  \<open>read(ptm, inptr, endptr - inptr)\<close> delivers at most \<open>endptr - inptr\<close> of the
  bytes that are waiting and stores them at \<open>inptr\<close>.
\<close>

definition pty_read :: "state \<Rightarrow> byte list \<Rightarrow> byte list" where
  "pty_read s avail = take (endptr s - inptr s) avail"

definition store :: "state \<Rightarrow> byte list \<Rightarrow> state" where
  "store s bs =
     s\<lparr> ringbuf := take (inptr s) (ringbuf s) @ bs @ drop (inptr s + length bs) (ringbuf s) \<rparr>"

text \<open>
  The increment of the buffer position after a read of \<open>n\<close> bytes, with the wraps and
  the drag of \<open>outptr\<close>.
\<close>

definition advance :: "state \<Rightarrow> nat \<Rightarrow> state" where
  "advance s n =
     (let inp = inptr s + n;
          outp = (if inptr s < outptr s \<and> inp > outptr s then inp else outptr s)
      in s\<lparr> inptr := (if inp \<ge> endptr s then 0 else inp),
            outptr := (if outp \<ge> endptr s then 0 else outp) \<rparr>)"

definition todo :: "state \<Rightarrow> nat" where
  "todo s = (if inptr s \<ge> outptr s then inptr s - outptr s else endptr s - outptr s)"

text \<open>
  One turn of the main loop. The environment of the turn: the result of \<open>select\<close>, of
  \<open>read\<close> (\<open>None\<close> for -1, else the bytes waiting on the pty), the answers to the
  writes and opens of the consoles, whether the log file exists, whether each of the two
  \<open>fopen\<close> succeeds, and the signal delivered during the turn (0 for none).
\<close>

record event =
  ev_select :: int
  ev_read :: "byte list option"
  ev_writes :: "wres list"
  ev_opens :: "int list"
  ev_access :: bool
  ev_fopen1 :: bool
  ev_fopen2 :: bool
  ev_signal :: int

definition read_and_fanout :: "state \<Rightarrow> event \<Rightarrow> state option" where
  "read_and_fanout s e =
     (if ev_select e = 1 then
        (case ev_read e of
           None \<Rightarrow> Some s
         | Some avail \<Rightarrow>
             (let bs = pty_read s avail;
                  s1 = store s bs
              in case fanout (ev_writes e) (ev_opens e) s1 bs of
                   None \<Rightarrow> None
                 | Some (s2, writes', opens') \<Rightarrow> Some (advance s2 (length bs))))
      else Some s)"

text \<open>
  The deferred open of the log file. The name for the rotation is built by
  \<open>snprintf(buf, sizeof(buf), "%s~", logfile)\<close> into \<open>buf[1024]\<close>, so it is cut to
  1023 characters.
\<close>

definition open_logfile :: "state \<Rightarrow> event \<Rightarrow> state" where
  "open_logfile s e =
     (let s1 = (if \<not> fp s \<and> ev_access e then
                  (let tr = trace s @ (if rotate s \<noteq> 0 then [Rename (logpath s) (take 1023 (logpath s @ ''~''))] else [])
                   in s\<lparr> trace := tr @ [Fopen (logpath s) (ev_fopen1 e)], fp := ev_fopen1 e \<rparr>)
                else s)
      in if \<not> fp s1 \<and> createlogfile s1 \<noteq> 0 then
           s1\<lparr> trace := trace s1 @ [Fopen (logpath s1) (ev_fopen2 e)], fp := ev_fopen2 e \<rparr>
         else s1)"

definition drain :: "state \<Rightarrow> state" where
  "drain s = (if fp s \<and> todo s \<noteq> 0 then writelog s (outptr s) (todo s) else s)"

definition iteration :: "state \<Rightarrow> event \<Rightarrow> state option" where
  "iteration s e =
     (case read_and_fanout s e of
        None \<Rightarrow> None
      | Some s1 \<Rightarrow> Some (drain (open_logfile s1 e)))"

text \<open>The handler: \<open>got_signal = sig\<close>.\<close>

definition handler :: "int \<Rightarrow> state \<Rightarrow> state" where
  "handler sig s = s\<lparr> got_signal := sig \<rparr>"

definition deliver :: "int \<Rightarrow> state \<Rightarrow> state" where
  "deliver sig s = (if sig = 0 then s else handler sig s)"

text \<open>
  \<open>while (!got_signal)\<close>, one event for each turn. The result is the state when the
  loop is left, \<open>None\<close> when the events end while the loop still runs.
\<close>

fun main_loop :: "state \<Rightarrow> event list \<Rightarrow> state option" where
  "main_loop s [] = (if got_signal s \<noteq> 0 then Some s else None)"
| "main_loop s (e # es) =
     (if got_signal s \<noteq> 0 then Some s
      else
        (case iteration s e of
           None \<Rightarrow> None
         | Some s1 \<Rightarrow> main_loop (deliver (ev_signal e) s1) es))"

text \<open>After the loop: the newline of \<open>didnl\<close>, and the closing of every handle.\<close>

definition shutdown :: "state \<Rightarrow> state" where
  "shutdown s =
     (let s1 = (if fp s then
                  s\<lparr> logfile := logfile s @ (if didnl s = 0 then [Data 10] else []),
                     trace := trace s @ [Fclose], fp := False \<rparr>
                else s)
      in s1\<lparr> trace := trace s1 @ [Close (pts s1), Close (ptm s1)] @ map (\<lambda>c. Close (fd c)) (cons s1) \<rparr>)"


section \<open>Startup\<close>

text \<open>
  The options of the command line, and what the startup finds: the console paths that
  \<open>consolenames\<close> returns (none when it returns 0 or -1), the answers to the opens of
  the consoles, the pair of \<open>findpty\<close> (\<open>None\<close> when it fails), the result of the
  \<open>open\<close> of \<open>/dev/tty0\<close> and whether \<open>ioctl(pts, TIOCCONS)\<close> succeeds.
\<close>

record options =
  opt_logfile :: string
  opt_rotate :: int
  opt_createlogfile :: int
  opt_syncalot :: int

definition default_options :: options where
  "default_options =
     \<lparr> opt_logfile = ''/run/log/stage-1.log'', opt_rotate = 0, opt_createlogfile = 0,
       opt_syncalot = 0 \<rparr>"

record boot =
  boot_names :: "string list"
  boot_opens :: "int list"
  boot_findpty :: "(int \<times> int) option"
  boot_tty0 :: int
  boot_tioccons :: bool

text \<open>
  The state when \<open>main\<close> starts: the initialisers of the globals, an arena of
  \<open>sz\<close> zero bytes (\<open>sizeof(ringbuf)\<close>, 1048576 in the source).
\<close>

definition init_state :: "nat \<Rightarrow> byte \<Rightarrow> options \<Rightarrow> state" where
  "init_state sz lowbyte opts =
     \<lparr> ringbuf = replicate sz 0, below = lowbyte, inptr = 0, outptr = 0,
       got_signal = 0, didnl = 1,
       createlogfile = opt_createlogfile opts, syncalot = opt_syncalot opts,
       lg = logger_init, logpath = opt_logfile opts, rotate = opt_rotate opts,
       fp = False, logfile = [], ptm = - 1, pts = - 1, cons = [], consoles_left = 0,
       trace = [] \<rparr>"

text \<open>The two \<open>strcmp\<close>/\<open>strcpy\<close> on the name of a console, in their order.\<close>

definition console_path :: "string \<Rightarrow> string" where
  "console_path n =
     (let n1 = (if n = ''/dev/tty0'' then ''/dev/tty1'' else n)
      in if n1 = ''/dev/vc/0'' then ''/dev/vc/1'' else n1)"

text \<open>
  The loop that opens the consoles: each name is rewritten, opened with \<open>open_nb\<close>,
  and \<open>consoles_left\<close> goes down when the open fails.
\<close>

fun open_consoles :: "string list \<Rightarrow> int list \<Rightarrow> state \<Rightarrow> state option" where
  "open_consoles [] opens s = Some s"
| "open_consoles (n # ns) opens s =
     (case opens of
        [] \<Rightarrow> None
      | r # opens' \<Rightarrow>
          (let (fd', tr') = open_nb (trace s) (console_path n) r;
               s1 = s\<lparr> cons := cons s @ [\<lparr> name = console_path n, fd = fd' \<rparr>], trace := tr' \<rparr>
           in open_consoles ns opens'
                (if fd' < 0 then s1\<lparr> consoles_left := consoles_left s1 - 1 \<rparr> else s1)))"

text \<open>
  \<open>main\<close> after the options are read: the exit status and the last state;
  \<open>None\<close> when the answers of the environment end before the program does.
\<close>

definition main :: "nat \<Rightarrow> byte \<Rightarrow> options \<Rightarrow> boot \<Rightarrow> event list \<Rightarrow> (int \<times> state) option" where
  "main sz lowbyte opts b es =
     (let s0 = init_state sz lowbyte opts
      in if boot_names b = [] then Some (1, s0)
         else
           (case open_consoles (boot_names b) (boot_opens b)
                   (s0\<lparr> consoles_left := int (length (boot_names b)) \<rparr>) of
              None \<Rightarrow> None
            | Some s1 \<Rightarrow>
                if consoles_left s1 = 0 then Some (1, s1)
                else
                  (case boot_findpty b of
                     None \<Rightarrow> Some (1, s1)
                   | Some (m, sl) \<Rightarrow>
                       (let s2 = s1\<lparr> ptm := m, pts := sl,
                                     trace := trace s1 @ OpenRdwr ''/dev/tty0'' (boot_tty0 b) #
                                       (if boot_tty0 b \<ge> 0 then [Close (boot_tty0 b)] else []) \<rparr>
                        in if \<not> boot_tioccons b then Some (1, s2)
                           else
                             (case main_loop s2 es of
                                None \<Rightarrow> None
                              | Some s3 \<Rightarrow> Some (0, shutdown s3))))))"

section \<open>Notions of the specification\<close>

text \<open>
  The bytes of a CSI sequence after \<open>ESC [\<close>: parameter bytes (digits, \<open>;\<close> and
  0x20 to 0x2F) and the final byte (0x40 to 0x7E).
\<close>

definition csi_param :: "byte \<Rightarrow> bool" where
  "csi_param c = ((48 \<le> c \<and> c \<le> 57) \<or> c = 59 \<or> (32 \<le> c \<and> c \<le> 47))"

definition csi_final :: "byte \<Rightarrow> bool" where
  "csi_final c = (64 \<le> c \<and> c \<le> 126)"

text \<open>
  Byte \<open>i\<close> of a span starts a line of the raw stream when the byte before it is a
  newline, or when it is the first byte the process ever handles.
\<close>

definition line_start :: "bool \<Rightarrow> byte \<Rightarrow> byte list \<Rightarrow> nat \<Rightarrow> bool" where
  "line_start first prev bs i = ((prev # bs) ! i = 10 \<or> (first \<and> i = 0))"

definition stamps_before :: "bool \<Rightarrow> byte \<Rightarrow> byte list \<Rightarrow> nat \<Rightarrow> nat" where
  "stamps_before first prev bs i = length (filter (line_start first prev bs) [0..<i])"

text \<open>Whether the filter drops byte \<open>i\<close> of a span that it enters in state \<open>esc\<close>.\<close>

definition dropped :: "int \<Rightarrow> byte list \<Rightarrow> nat \<Rightarrow> bool" where
  "dropped esc bs i = fst (esc_step (snd (esc_run esc (take i bs))) (bs ! i))"

text \<open>What a call of \<open>writelog\<close> is to write for byte \<open>i\<close> of its span.\<close>

definition items_at :: "logger \<Rightarrow> byte \<Rightarrow> byte list \<Rightarrow> nat \<Rightarrow> logitem list" where
  "items_at L prev bs i =
     (if line_start (first_run L) prev bs i
      then [Stamp (ticks L + stamps_before (first_run L) prev bs i)] else []) @
     (if dropped (inside_esc L) bs i then [] else [Data (bs ! i)])"

text \<open>
  The pty delivers a stream; \<open>k\<close> bytes of it are waiting at each read. The captures
  alone, with no log file open: the state reached and the part of the stream not read.
\<close>

fun capture_stream :: "state \<Rightarrow> byte list \<Rightarrow> nat list \<Rightarrow> state \<times> byte list" where
  "capture_stream s stream [] = (s, stream)"
| "capture_stream s stream (k # ks) =
     (let bs = pty_read s (take k stream)
      in capture_stream (advance (store s bs) (length bs)) (drop (length bs) stream) ks)"

text \<open>The span that the main loop hands to \<open>writelog\<close>: \<open>todo\<close> bytes at \<open>outptr\<close>.\<close>

definition unread :: "state \<Rightarrow> byte list" where
  "unread s = take (todo s) (drop (outptr s) (ringbuf s))"

text \<open>The bytes that the writes of a trace delivered, in their order.\<close>

fun bytes_written :: "syscall list \<Rightarrow> byte list" where
  "bytes_written [] = []"
| "bytes_written (Write f bs # tr) = bs @ bytes_written tr"
| "bytes_written (c # tr) = bytes_written tr"

text \<open>The paths that \<open>open_nb\<close> was asked to open.\<close>

fun opened_paths :: "syscall list \<Rightarrow> string list" where
  "opened_paths [] = []"
| "opened_paths (OpenNb p r # tr) = p # opened_paths tr"
| "opened_paths (c # tr) = opened_paths tr"

text \<open>A string as \<open>ctime\<close> returns it, for the examples.\<close>

definition ctime_example :: "byte list" where
  "ctime_example = map of_char ''Fri Oct 30 15:55:00 2026'' @ [10]"

section \<open>Invariant and examples\<close>

text \<open>
  While \<open>outptr\<close> rests at the start of the arena and the bytes \<open>pre\<close> have been
  captured: \<open>inptr\<close> is their number modulo the capacity, and the arena holds the
  last of them below \<open>inptr\<close>.
\<close>

definition ring_inv :: "nat \<Rightarrow> state \<Rightarrow> byte list \<Rightarrow> bool" where
  "ring_inv C s pre =
     (length (ringbuf s) = C \<and> outptr s = 0 \<and> inptr s < C \<and>
      inptr s = length pre mod C \<and>
      take (inptr s) (ringbuf s) = drop (length pre - length pre mod C) pre)"

text \<open>A small running state with one console, and a turn in which that console is lost.\<close>

definition example_state :: state where
  "example_state =
     (init_state 8 0 default_options)
       \<lparr> pts := 7, ptm := 6, cons := [\<lparr> name = ''/dev/ttyS0'', fd = 3 \<rparr>], consoles_left := 1 \<rparr>"

definition example_event :: event where
  "example_event =
     \<lparr> ev_select = 1, ev_read = Some [104, 105], ev_writes = [WriteErr 11], ev_opens = [],
       ev_access = True, ev_fopen1 = True, ev_fopen2 = False, ev_signal = 0 \<rparr>"

definition example_after :: state where
  "example_after =
     example_state
       \<lparr> ringbuf := [104, 105] @ replicate 6 0, inptr := 2, outptr := 2, got_signal := 1,
         lg := \<lparr> first_run = False, inside_esc = 0, ticks = 1 \<rparr>, fp := True,
         logfile := [Stamp 0, Data 104, Data 105],
         cons := [\<lparr> name = ''/dev/ttyS0'', fd = - 1 \<rparr>], consoles_left := 0,
         trace := [WriteFailed 3 11, Close 7, Fopen ''/run/log/stage-1.log'' True, Fflush] \<rparr>"

text \<open>A startup with three consoles found, and a turn that ends with SIGTERM.\<close>

definition example_boot :: boot where
  "example_boot =
     \<lparr> boot_names = [''/dev/tty0'', ''/dev/vc/0'', ''/dev/ttyS0''], boot_opens = [3, - 1, 4],
       boot_findpty = Some (6, 7), boot_tty0 = 5, boot_tioccons = True \<rparr>"

definition last_event :: event where
  "last_event =
     \<lparr> ev_select = 1, ev_read = Some [104, 105], ev_writes = [Wrote 2, Wrote 1, Wrote 1],
       ev_opens = [], ev_access = True, ev_fopen1 = True, ev_fopen2 = False, ev_signal = 15 \<rparr>"

text \<open>
  A running state with one console and an arena of \<open>C\<close> bytes, and a turn in which
  \<open>bs\<close> is read from the pty and the console accepts it in one write; the log file
  exists and opens. \<open>sig\<close> is the signal delivered during the turn.
\<close>

definition wrap_state :: "nat \<Rightarrow> byte \<Rightarrow> state" where
  "wrap_state C lowbyte =
     (init_state C lowbyte default_options)
       \<lparr> pts := 7, ptm := 6, cons := [\<lparr> name = ''/dev/ttyS0'', fd = 3 \<rparr>], consoles_left := 1 \<rparr>"

definition read_event :: "byte list \<Rightarrow> int \<Rightarrow> event" where
  "read_event bs sig =
     \<lparr> ev_select = 1, ev_read = Some bs, ev_writes = [Wrote (length bs)], ev_opens = [],
       ev_access = True, ev_fopen1 = True, ev_fopen2 = False, ev_signal = sig \<rparr>"

text \<open>
  The states that the three turns of the example below reach: the arena of \<open>n + 2\<close>
  bytes is filled up to its last byte with the letter A, then a newline takes the last
  byte, then the letter B is stored at the start of the arena.
\<close>

definition wrap_1 :: "nat \<Rightarrow> byte \<Rightarrow> state" where
  "wrap_1 n lowbyte =
     (wrap_state (n + 2) lowbyte)
       \<lparr> ringbuf := replicate (Suc n) 65 @ [0], inptr := Suc n, outptr := Suc n,
         lg := \<lparr> first_run = False, inside_esc = 0, ticks = 1 \<rparr>, fp := True,
         logfile := Stamp 0 # replicate (Suc n) (Data 65),
         trace := [Write 3 (replicate (Suc n) 65), Fopen ''/run/log/stage-1.log'' True, Fflush] \<rparr>"

definition wrap_2 :: "nat \<Rightarrow> byte \<Rightarrow> state" where
  "wrap_2 n lowbyte =
     (wrap_state (n + 2) lowbyte)
       \<lparr> ringbuf := replicate (Suc n) 65 @ [10], inptr := 0, outptr := 0,
         lg := \<lparr> first_run = False, inside_esc = 0, ticks = 1 \<rparr>, fp := True,
         logfile := Stamp 0 # replicate (Suc n) (Data 65) @ [Data 10],
         trace := [Write 3 (replicate (Suc n) 65), Fopen ''/run/log/stage-1.log'' True, Fflush,
                   Write 3 [10]] \<rparr>"

definition wrap_3 :: "nat \<Rightarrow> byte \<Rightarrow> state" where
  "wrap_3 n lowbyte =
     (wrap_state (n + 2) lowbyte)
       \<lparr> ringbuf := 66 # replicate n 65 @ [10], inptr := 1, outptr := 1,
         lg := \<lparr> first_run = False, inside_esc = 0, ticks = (if lowbyte = 10 then 2 else 1) \<rparr>,
         fp := True,
         logfile := Stamp 0 # replicate (Suc n) (Data 65) @ [Data 10] @
                    (if lowbyte = 10 then [Stamp 1] else []) @ [Data 66],
         trace := [Write 3 (replicate (Suc n) 65), Fopen ''/run/log/stage-1.log'' True, Fflush,
                   Write 3 [10], Write 3 [66]] @ (if lowbyte = 10 then [Fflush] else []) \<rparr>"

text \<open>
  Every console that is open holds a descriptor that \<open>open_nb\<close> returned for the
  name of that console.
\<close>

definition fds_opened_by_name :: "state \<Rightarrow> bool" where
  "fds_opened_by_name s =
     (\<forall>c\<in>set (cons s). 0 \<le> fd c \<longrightarrow> OpenNb (name c) (fd c) \<in> set (trace s))"

section \<open>Properties of the log writer\<close>

lemma writelog_byte_filter:
  "inside_esc (fst (writelog_byte L prev c)) = snd (esc_step (inside_esc L) c)"
  "data_of (snd (writelog_byte L prev c)) = (if fst (esc_step (inside_esc L) c) then [] else [c])"
  by (simp_all add: writelog_byte_def Let_def split: prod.splits)

lemma data_of_append: "data_of (xs @ ys) = data_of xs @ data_of ys"
  by (induction xs rule: data_of.induct) simp_all

lemma stamps_of_append: "stamps_of (xs @ ys) = stamps_of xs @ stamps_of ys"
  by (induction xs rule: stamps_of.induct) simp_all

lemma writelog_loop_filter:
  "data_of (snd (writelog_loop L prev bs)) = fst (esc_run (inside_esc L) bs) \<and>
   inside_esc (fst (writelog_loop L prev bs)) = snd (esc_run (inside_esc L) bs)"
proof (induction bs arbitrary: L prev)
  case Nil
  show ?case by simp
next
  case (Cons c cs)
  obtain L1 out1 where b: "writelog_byte L prev c = (L1, out1)"
    by (cases "writelog_byte L prev c")
  have e: "inside_esc L1 = snd (esc_step (inside_esc L) c)"
    and d: "data_of out1 = (if fst (esc_step (inside_esc L) c) then [] else [c])"
    using writelog_byte_filter [of L prev c] b by simp_all
  from Cons.IH [of L1 c] b e d show ?case
    by (auto simp: data_of_append split: prod.splits)
qed

lemma esc_run_append:
  "esc_run esc (xs @ ys) =
     (fst (esc_run esc xs) @ fst (esc_run (snd (esc_run esc xs)) ys),
      snd (esc_run (snd (esc_run esc xs)) ys))"
  by (induction xs arbitrary: esc) (simp_all split: prod.splits)

lemma writelog_calls_filter:
  "data_of (snd (writelog_calls L calls)) = fst (esc_run (inside_esc L) (concat (map snd calls))) \<and>
   inside_esc (fst (writelog_calls L calls)) = snd (esc_run (inside_esc L) (concat (map snd calls)))"
proof (induction calls arbitrary: L)
  case Nil
  show ?case by simp
next
  case (Cons a calls)
  obtain prev bs where a: "a = (prev, bs)" by (cases a)
  obtain L1 out1 where l: "writelog_loop L prev bs = (L1, out1)"
    by (cases "writelog_loop L prev bs")
  from writelog_loop_filter [of L prev bs] l
  have "data_of out1 = fst (esc_run (inside_esc L) bs)"
    and "inside_esc L1 = snd (esc_run (inside_esc L) bs)" by simp_all
  with Cons.IH [of L1] a l show ?case
    by (auto simp: data_of_append esc_run_append split: prod.splits)
qed

lemma esc_run_no_esc:
  "27 \<notin> set bs \<Longrightarrow> esc_run 0 bs = (filter (\<lambda>c. c \<noteq> 13) bs, 0)"
  by (induction bs) (auto simp: esc_step_def)

lemma esc_run_params:
  "\<forall>p\<in>set ps. csi_param p \<Longrightarrow> esc_run 2 ps = ([], 2)"
  by (induction ps) (auto simp: esc_step_def csi_param_def)

lemma esc_run_final: "csi_final f \<Longrightarrow> esc_run 2 [f] = ([], 0)"
  by (auto simp: esc_step_def csi_final_def word_le_nat_alt)

lemma esc_run_csi_tail:
  assumes "\<forall>p\<in>set ps. csi_param p" "csi_final f"
  shows "esc_run 2 (take j (ps @ [f])) = ([], if length ps < j then 0 else 2)"
proof (cases "length ps < j")
  case True
  then have "take j (ps @ [f]) = ps @ [f]" by simp
  moreover have "esc_run 2 (ps @ [f]) = ([], 0)"
    unfolding esc_run_append esc_run_params [OF assms(1)]
    using esc_run_final [OF assms(2)] by simp
  ultimately show ?thesis using True by simp
next
  case False
  then have "take j (ps @ [f]) = take j ps" by simp
  moreover have "\<forall>p\<in>set (take j ps). csi_param p"
    using assms(1) by (meson in_set_takeD)
  ultimately show ?thesis using False by (simp add: esc_run_params)
qed

lemma esc_run_csi:
  assumes "\<forall>p\<in>set ps. csi_param p" "csi_final f" "0 < k"
  shows "esc_run 0 (take k (27 # 91 # ps @ [f])) = ([], if length ps + 3 \<le> k then 0 else if k = 1 then 1 else 2)"
proof (cases k)
  case 0
  with assms show ?thesis by simp
next
  case (Suc k1)
  show ?thesis
  proof (cases k1)
    case 0
    with Suc show ?thesis by (simp add: esc_step_def)
  next
    case (Suc j)
    with \<open>k = Suc k1\<close> esc_run_csi_tail [OF assms(1,2), of j] show ?thesis
      by (auto simp: esc_step_def)
  qed
qed



lemma upt_0_Suc: "[0..<Suc n] = 0 # map Suc [0..<n]"
  by (simp add: upt_conv_Cons map_Suc_upt del: upt_Suc)

lemma line_start_Suc: "line_start first prev (c # cs) (Suc i) = line_start False c cs i"
  by (simp add: line_start_def)

lemma dropped_Suc: "dropped esc (c # cs) (Suc i) = dropped (snd (esc_step esc c)) cs i"
  by (simp add: dropped_def split: prod.splits)

lemma stamps_before_Suc:
  "stamps_before first prev (c # cs) (Suc i) =
     (if prev = 10 \<or> first then 1 else 0) + stamps_before False c cs i"
proof -
  define P where "P = line_start first prev (c # cs)"
  have comp: "P \<circ> Suc = line_start False c cs"
    unfolding P_def by (rule ext) (simp add: line_start_Suc)
  have zero: "P 0 = (prev = 10 \<or> first)"
    unfolding P_def by (simp add: line_start_def)
  have "stamps_before first prev (c # cs) (Suc i) = length (filter P (0 # map Suc [0..<i]))"
    unfolding P_def stamps_before_def upt_0_Suc ..
  also have "\<dots> = (if P 0 then 1 else 0) + length (filter (P \<circ> Suc) [0..<i])"
    by (simp add: filter_map)
  finally show ?thesis
    unfolding comp zero stamps_before_def .
qed

lemma writelog_byte_out:
  "writelog_byte L prev c =
     (\<lparr> first_run = False,
        inside_esc = snd (esc_step (inside_esc L) c),
        ticks = ticks L + (if prev = 10 \<or> first_run L then 1 else 0) \<rparr>,
      (if prev = 10 \<or> first_run L then [Stamp (ticks L)] else []) @
      (if fst (esc_step (inside_esc L) c) then [] else [Data c]))"
  by (cases L) (auto simp: writelog_byte_def Let_def split: prod.splits)

lemma items_at_Suc:
  "items_at L prev (c # cs) (Suc i) =
   items_at \<lparr> first_run = False, inside_esc = snd (esc_step (inside_esc L) c),
        ticks = ticks L + (if prev = 10 \<or> first_run L then 1 else 0) \<rparr> c cs i"
  by (simp add: items_at_def line_start_Suc dropped_Suc stamps_before_Suc)

lemma items_at_0:
  "items_at L prev (c # cs) 0 =
     (if prev = 10 \<or> first_run L then [Stamp (ticks L)] else []) @
      (if fst (esc_step (inside_esc L) c) then [] else [Data c])"
  by (simp add: items_at_def line_start_def dropped_def stamps_before_def)

lemma writelog_loop_items:
  "snd (writelog_loop L prev bs) = concat (map (items_at L prev bs) [0..<length bs])"
proof (induction bs arbitrary: L prev)
  case Nil
  show ?case by simp
next
  case (Cons c cs)
  let ?L1 = "\<lparr> first_run = False, inside_esc = snd (esc_step (inside_esc L) c),
        ticks = ticks L + (if prev = 10 \<or> first_run L then 1 else 0) \<rparr>"
  have "snd (writelog_loop L prev (c # cs)) =
        items_at L prev (c # cs) 0 @ snd (writelog_loop ?L1 c cs)"
    by (simp add: writelog_byte_out items_at_0 split: prod.splits)
  also have "snd (writelog_loop ?L1 c cs) = concat (map (items_at ?L1 c cs) [0..<length cs])"
    by (rule Cons.IH)
  also have "map (items_at ?L1 c cs) [0..<length cs] =
             map (items_at L prev (c # cs)) (map Suc [0..<length cs])"
    by (simp add: items_at_Suc comp_def)
  finally show ?case
    unfolding length_Cons upt_0_Suc by simp
qed

lemma stamps_of_items_at:
  "stamps_of (items_at L prev bs i) =
     (if line_start (first_run L) prev bs i
      then [ticks L + stamps_before (first_run L) prev bs i] else [])"
  by (simp add: items_at_def stamps_of_append)

lemma stamps_of_concat: "stamps_of (concat xss) = concat (map stamps_of xss)"
  by (induction xss) (simp_all add: stamps_of_append)

lemma stamps_upto:
  "concat (map (\<lambda>i. if P i then [t + length (filter P [0..<i])] else []) [0..<n]) =
   map (\<lambda>j. t + j) [0..<length (filter P [0..<n])]"
  by (induction n) simp_all

lemma writelog_loop_stamps:
  "stamps_of (snd (writelog_loop L prev bs)) =
     map (\<lambda>j. ticks L + j) [0..<stamps_before (first_run L) prev bs (length bs)]"
  unfolding writelog_loop_items stamps_of_concat map_map comp_def stamps_of_items_at
  unfolding stamps_before_def by (rule stamps_upto)

text \<open>
  A call over a span is two calls over its two parts, when the second call finds the
  last byte of the first part before its span.
\<close>

lemma writelog_loop_append:
  "writelog_loop L prev (xs @ ys) =
     (fst (writelog_loop (fst (writelog_loop L prev xs)) (last (prev # xs)) ys),
      snd (writelog_loop L prev xs) @
      snd (writelog_loop (fst (writelog_loop L prev xs)) (last (prev # xs)) ys))"
proof (induction xs arbitrary: L prev)
  case Nil
  show ?case by simp
next
  case (Cons c cs)
  obtain L1 out1 where b: "writelog_byte L prev c = (L1, out1)"
    by (cases "writelog_byte L prev c")
  from Cons.IH [of L1 c] b show ?case
    by (simp add: split_beta)
qed

text \<open>
  C1. A well-formed CSI sequence (ESC, \<open>[\<close>, parameter bytes, one final byte) that
  the filter meets in its normal state, cut in any way into successive calls of
  \<open>writelog\<close>: none of its bytes is written, and the filter is back in its normal
  state after the final byte and not before. The calls may also cover only the first
  \<open>k\<close> bytes of the sequence: the state is normal exactly when \<open>k\<close> reaches the
  length of the sequence.
\<close>

theorem csi_sequence_removed:
  assumes "inside_esc L = 0"
    and "\<forall>p\<in>set ps. csi_param p"
    and "csi_final f"
    and "0 < k"
    and "concat (map snd calls) = take k (27 # 91 # ps @ [f])"
  shows "data_of (snd (writelog_calls L calls)) = [] \<and>
         (inside_esc (fst (writelog_calls L calls)) = 0 \<longleftrightarrow> length ps + 3 \<le> k)"
proof -
  have "esc_run (inside_esc L) (concat (map snd calls)) =
        ([], if length ps + 3 \<le> k then 0 else if k = 1 then 1 else 2)"
    unfolding assms(1) assms(5) using assms(2-4) by (rule esc_run_csi)
  with writelog_calls_filter [of L calls] show ?thesis
    by (simp split: if_splits)
qed

theorem csi_sequence_removed_witness:
  "data_of (snd (writelog_calls logger_init [(0, [27, 91]), (91, [51]), (51, [49, 109])])) = [] \<and>
   inside_esc (fst (writelog_calls logger_init [(0, [27, 91]), (91, [51]), (51, [49, 109])])) = 0 \<and>
   data_of (snd (writelog_calls logger_init [(0, [27, 91]), (91, [51])])) = [] \<and>
   inside_esc (fst (writelog_calls logger_init [(0, [27, 91]), (91, [51])])) \<noteq> 0"
proof -
  have p: "\<forall>p\<in>set [51, 49]. csi_param p" by (simp add: csi_param_def)
  have f: "csi_final 109" by (simp add: csi_final_def)
  have i: "inside_esc logger_init = 0" by (simp add: logger_init_def)
  have "concat (map snd [(0, [27, 91]), (91, [51]), (51, [49, 109])]) =
        take 5 (27 # 91 # [51, 49] @ [109 :: byte])" by simp
  from csi_sequence_removed [OF i p f _ this]
  have a: "data_of (snd (writelog_calls logger_init [(0, [27, 91]), (91, [51]), (51, [49, 109])])) = [] \<and>
   inside_esc (fst (writelog_calls logger_init [(0, [27, 91]), (91, [51]), (51, [49, 109])])) = 0"
    by simp
  have "concat (map snd [(0, [27, 91]), (91, [51])]) =
        take 3 (27 # 91 # [51, 49] @ [109 :: byte])" by simp
  from csi_sequence_removed [OF i p f _ this]
  have b: "data_of (snd (writelog_calls logger_init [(0, [27, 91]), (91, [51])])) = [] \<and>
   inside_esc (fst (writelog_calls logger_init [(0, [27, 91]), (91, [51])])) \<noteq> 0"
    by simp
  from a b show ?thesis by simp
qed

text \<open>
  C5. A span with no ESC byte, met in the normal state and cut in any way into successive
  calls: the bytes written are the span without its carriage returns, in order.
\<close>

theorem no_esc_only_cr_removed:
  assumes "inside_esc L = 0"
    and "27 \<notin> set (concat (map snd calls))"
  shows "data_of (snd (writelog_calls L calls)) = filter (\<lambda>c. c \<noteq> 13) (concat (map snd calls)) \<and>
         inside_esc (fst (writelog_calls L calls)) = 0"
  using writelog_calls_filter [of L calls] esc_run_no_esc [OF assms(2)] assms(1) by simp

theorem no_esc_only_cr_removed_witness:
  "data_of (snd (writelog_calls logger_init [(0, [79, 75, 13]), (13, [10, 13, 13, 65]), (65, [91, 48, 109])]))
     = [79, 75, 10, 65, 91, 48, 109]"
proof -
  have "inside_esc logger_init = 0" by (simp add: logger_init_def)
  moreover have "27 \<notin> set (concat (map snd [(0 :: byte, [79, 75, 13 :: byte]), (13, [10, 13, 13, 65]), (65, [91, 48, 109])]))"
    by simp
  ultimately show ?thesis
    using no_esc_only_cr_removed [of logger_init "[(0, [79, 75, 13]), (13, [10, 13, 13, 65]), (65, [91, 48, 109])]"]
    by simp
qed

text \<open>
  C6. The input A, newline, B (the bytes 65, 10, 66) in one call at the start of the process, the
  clock returning strings of at least 24 characters: the file receives the first reading
  cut to 24 characters, a colon, a space, A and the newline, the second reading cut to 24 characters and
  a colon, a space and B, whatever byte lies before the span.
\<close>

theorem first_line_and_second_line_stamped:
  assumes "24 \<le> length (clock 0)" and "24 \<le> length (clock 1)"
  shows "file_bytes clock (snd (writelog_loop logger_init prev [65, 10, 66])) =
           take 24 (clock 0) @ [58, 32] @ [65, 10] @ take 24 (clock 1) @ [58, 32] @ [66] \<and>
         length (take 24 (clock 0)) = 24 \<and> length (take 24 (clock 1)) = 24"
  using assms by (simp add: logger_init_def writelog_byte_def esc_step_def)

theorem first_line_and_second_line_stamped_witness:
  "file_bytes (\<lambda>k. ctime_example) (snd (writelog_loop logger_init 0 [65, 10, 66])) =
     map of_char ''Fri Oct 30 15:55:00 2026: A'' @ [10] @ map of_char ''Fri Oct 30 15:55:00 2026: B''"
proof -
  have "24 \<le> length ((\<lambda>k. ctime_example) (0::nat))" by (simp add: ctime_example_def)
  moreover have "24 \<le> length ((\<lambda>k. ctime_example) (1::nat))" by (simp add: ctime_example_def)
  ultimately show ?thesis
    using first_line_and_second_line_stamped [of "\<lambda>k. ctime_example" 0]
    by (simp add: ctime_example_def)
qed

text \<open>
  C8, as stated, fails: the filter turns ESC CR into CR (after ESC, a byte outside
  \<open>[\<close> and 0x40 to 0x5F passes), the output CR holds no ESC byte, and the filter
  applied to it removes it.
\<close>

theorem refiltering_cr_counterexample:
  "data_of (snd (writelog_loop logger_init 0 [27, 13])) = [13] \<and>
   27 \<notin> set [13 :: byte] \<and>
   data_of (snd (writelog_loop logger_init 0 [13])) \<noteq> [13]"
  by (simp add: logger_init_def writelog_byte_def esc_step_def)

text \<open>
  C8, amended. Filter output that holds neither an ESC byte nor a carriage return is
  returned unchanged by the filter in its normal state, however it is cut into calls.
\<close>

theorem refiltering_fixed_point:
  assumes "ys = data_of (snd (writelog_calls L calls))"
    and "27 \<notin> set ys" and "13 \<notin> set ys"
    and "inside_esc L' = 0"
    and "concat (map snd calls') = ys"
  shows "data_of (snd (writelog_calls L' calls')) = ys"
proof -
  have "filter (\<lambda>c. c \<noteq> 13) ys = ys"
    using assms(3) by (induction ys) auto
  moreover have "esc_run 0 ys = (filter (\<lambda>c. c \<noteq> 13) ys, 0)"
    using assms(2) by (rule esc_run_no_esc)
  ultimately show ?thesis
    using writelog_calls_filter [of L' calls'] assms(4,5) by simp
qed

theorem refiltering_fixed_point_witness:
  "data_of (snd (writelog_calls logger_init [(0, [27, 91, 48, 109, 79]), (79, [13, 75, 10])])) = [79, 75, 10] \<and>
   data_of (snd (writelog_calls logger_init [(0, [79, 75]), (75, [10])])) = [79, 75, 10]"
proof -
  have y: "[79, 75, 10] = data_of (snd (writelog_calls logger_init [(0, [27, 91, 48, 109, 79]), (79, [13, 75, 10])]))"
    by (simp add: logger_init_def writelog_byte_def esc_step_def)
  have "27 \<notin> set [79, 75, 10 :: byte]" and "13 \<notin> set [79, 75, 10 :: byte]"
    and "inside_esc logger_init = 0"
    and "concat (map snd [(0 :: byte, [79, 75]), (75, [10 :: byte])]) = [79, 75, 10]"
    by (simp_all add: logger_init_def)
  from refiltering_fixed_point [OF y this] y show ?thesis by simp
qed

text \<open>
  What one call of \<open>writelog\<close> writes. For byte \<open>i\<close> of the span: a timestamp
  when the byte before it in the raw span is a newline (for the first byte of the span,
  the byte stored before the span, which \<open>*(ptr-1)\<close> reads) or when it is the first
  byte ever handled, and then the byte itself unless the filter drops it. The timestamps
  of a call are one for each such raw line start, whatever the filter drops. A span cut
  into two calls gives what one call gives, provided the second call finds the last byte
  of the first part before its span.
\<close>

lemma writelog_call_items:
  "snd (writelog_loop L prev bs) = concat (map (items_at L prev bs) [0..<length bs]) \<and>
   stamps_of (snd (writelog_loop L prev bs)) =
     map (\<lambda>j. ticks L + j) [0..<stamps_before (first_run L) prev bs (length bs)] \<and>
   snd (writelog_loop L prev (xs @ ys)) =
     snd (writelog_loop L prev xs) @
     snd (writelog_loop (fst (writelog_loop L prev xs)) (last (prev # xs)) ys)"
  using writelog_loop_items [of L prev bs] writelog_loop_stamps [of L prev bs]
    writelog_loop_append [of L prev xs ys] by simp

lemma writelog_call_items_example:
  "concat (map (items_at logger_init 0 [65, 10, 27, 91, 48, 109]) [0..<6]) =
     [Stamp 0, Data 65, Data 10, Stamp 1] \<and>
   stamps_before True 0 [65, 10, 27, 91, 48, 109] 6 = 2"
proof -
  note th = writelog_call_items [of logger_init 0 "[65, 10, 27, 91, 48, 109]"]
  have len: "length [65, 10, 27, 91, 48, 109 :: byte] = 6" by simp
  have a: "snd (writelog_loop logger_init 0 [65, 10, 27, 91, 48, 109]) =
           [Stamp 0, Data 65, Data 10, Stamp 1]"
    by (simp add: logger_init_def writelog_byte_def esc_step_def)
  have c: "concat (map (items_at logger_init 0 [65, 10, 27, 91, 48, 109]) [0..<6]) =
           [Stamp 0, Data 65, Data 10, Stamp 1]"
    using th [THEN conjunct1] unfolding len a by (rule sym)
  have "length (stamps_of [Stamp 0, Data 65, Data 10, Stamp 1]) =
        length (map (\<lambda>j. ticks logger_init + j)
          [0..<stamps_before (first_run logger_init) 0 [65, 10, 27, 91, 48, 109] 6])"
    using th [THEN conjunct2, THEN conjunct1] unfolding len a by (rule arg_cong)
  then have "stamps_before True 0 [65, 10, 27, 91, 48, 109] 6 = 2"
    by (simp add: logger_init_def)
  with c show ?thesis by simp
qed

section \<open>Properties of the ring buffer\<close>

lemma mod_step_below:
  fixes T C n :: nat
  assumes "T mod C + n < C"
  shows "(T + n) mod C = T mod C + n"
proof -
  have "(T + n) mod C = (T mod C + n) mod C" by (simp add: mod_add_left_eq)
  with assms show ?thesis by simp
qed

lemma mod_step_wrap:
  fixes T C n :: nat
  assumes "T mod C + n = C"
  shows "(T + n) mod C = 0"
proof -
  have "(T + n) mod C = (T mod C + n) mod C" by (simp add: mod_add_left_eq)
  with assms show ?thesis by simp
qed

lemma capture_keeps_inv:
  assumes inv: "ring_inv C s pre" and n: "length bs \<le> C - inptr s"
  shows "ring_inv C (advance (store s bs) (length bs)) (pre @ bs)"
proof -
  let ?i = "inptr s" and ?n = "length bs" and ?T = "length pre"
  let ?s2 = "advance (store s bs) (length bs)"
  from inv have len: "length (ringbuf s) = C" and out: "outptr s = 0" and i: "?i < C"
    and im: "?i = ?T mod C"
    and tk: "take ?i (ringbuf s) = drop (?T - ?T mod C) pre"
    unfolding ring_inv_def by blast+
  have le: "?T mod C \<le> ?T" by (rule mod_less_eq_dividend)
  have buf: "ringbuf ?s2 = take ?i (ringbuf s) @ bs @ drop (?i + ?n) (ringbuf s)"
    by (simp add: advance_def store_def Let_def)
  have o2: "outptr ?s2 = 0"
    using out i by (simp add: advance_def store_def endptr_def Let_def)
  have i2: "inptr ?s2 = (if C \<le> ?i + ?n then 0 else ?i + ?n)"
    using len i n by (simp add: advance_def store_def endptr_def Let_def)
  have l2: "length (ringbuf ?s2) = C"
    unfolding buf using len i n by simp
  show ?thesis
  proof (cases "?i + ?n < C")
    case True
    then have m: "(?T + ?n) mod C = ?i + ?n" using im mod_step_below [of ?T C ?n] by simp
    have "take (?i + ?n) (ringbuf ?s2) = take ?i (ringbuf s) @ bs"
      unfolding buf using i len by simp
    also have "\<dots> = drop (?T - ?T mod C) pre @ bs" by (simp add: tk)
    also have "\<dots> = drop (?T + ?n - (?i + ?n)) (pre @ bs)" using im le by simp
    finally have t2: "take (?i + ?n) (ringbuf ?s2) = drop (?T + ?n - (?i + ?n)) (pre @ bs)" .
    have i3: "inptr ?s2 = ?i + ?n" using i2 True by simp
    show ?thesis
      unfolding ring_inv_def i3 length_append m using l2 o2 True t2 by simp
  next
    case False
    with n i have e: "?i + ?n = C" by simp
    then have m: "(?T + ?n) mod C = 0" using im mod_step_wrap [of ?T C ?n] by simp
    have i3: "inptr ?s2 = 0" using i2 e by simp
    show ?thesis
      unfolding ring_inv_def i3 length_append m using l2 o2 i by simp
  qed
qed

lemma capture_stream_inv:
  assumes "capture_stream s stream ks = (s', rest)" and "ring_inv C s pre"
  shows "\<exists>bs. stream = bs @ rest \<and> ring_inv C s' (pre @ bs)"
  using assms
proof (induction ks arbitrary: s stream pre)
  case Nil
  then show ?case by simp
next
  case (Cons k ks)
  let ?bs = "pty_read s (take k stream)"
  have len: "length ?bs \<le> C - inptr s"
    using Cons.prems(2) by (simp add: pty_read_def endptr_def ring_inv_def)
  have pre: "?bs = take (length ?bs) stream"
    by (simp add: pty_read_def take_take min_def) 
  from Cons.prems(1)
  have run: "capture_stream (advance (store s ?bs) (length ?bs)) (drop (length ?bs) stream) ks = (s', rest)"
    by (simp add: Let_def)
  from Cons.IH [OF run capture_keeps_inv [OF Cons.prems(2) len]]
  obtain cs where c: "drop (length ?bs) stream = cs @ rest" and i: "ring_inv C s' ((pre @ ?bs) @ cs)"
    by blast
  have "stream = take (length ?bs) stream @ drop (length ?bs) stream" by simp
  with pre c have "stream = (?bs @ cs) @ rest" by simp
  with i show ?case by (metis append_assoc)
qed

lemma ring_inv_init: "0 < C \<Longrightarrow> ring_inv C (init_state C lowbyte opts) []"
  by (simp add: ring_inv_def init_state_def)

lemma ring_inv_unread:
  assumes "ring_inv C s pre"
  shows "todo s = length pre mod C" 
    and "unread s = drop (length pre - length pre mod C) pre"
    and "todo (writelog s (outptr s) (todo s)) = 0"
  using assms
  by (auto simp: ring_inv_def todo_def unread_def writelog_def endptr_def Let_def split: prod.splits)

text \<open>
  C2, amended. From the empty buffer of capacity \<open>C\<close>, with no log file open, after
  captures that take \<open>C + K\<close> bytes of the stream in all: \<open>outptr\<close> is still at
  the start of the arena, \<open>inptr\<close> is at \<open>K mod C\<close>, and what the drain hands to
  \<open>writelog\<close> is exactly the last \<open>K mod C\<close> bytes captured (the last \<open>K\<close>
  when \<open>K < C\<close>); after that drain nothing is left to read.
\<close>

theorem overrun_keeps_last_bytes:
  assumes "0 < C"
    and "capture_stream (init_state C lowbyte opts) stream ks = (s', rest)"
    and "length stream - length rest = C + K"
  shows "outptr s' = 0 \<and> inptr s' = K mod C \<and> todo s' = K mod C \<and>
         unread s' = drop (C + K - K mod C) (take (C + K) stream) \<and>
         todo (writelog s' (outptr s') (todo s')) = 0"
proof -
  from capture_stream_inv [OF assms(2) ring_inv_init [OF assms(1)]]
  obtain bs where s: "stream = bs @ rest" and i: "ring_inv C s' bs" by auto
  from s assms(3) have l: "length bs = C + K" by simp
  with s have b: "bs = take (C + K) stream" by simp
  have m: "(C + K) mod C = K mod C" by simp
  from i have "outptr s' = 0" "inptr s' = length bs mod C" by (simp_all add: ring_inv_def)
  with ring_inv_unread [OF i] l m b show ?thesis by simp
qed

text \<open>
  C2, as stated, fails: with the arena of the source (1048576 bytes), after 1048576 bytes
  and one more, \<open>outptr\<close> is 0 and \<open>inptr\<close> is 1, and the drain finds one byte,
  not the last 1048576.
\<close>

theorem overrun_counterexample:
  "snd (capture_stream (init_state 1048576 0 default_options) (replicate 1048576 65 @ [66]) [1048576, 1]) = [] \<and>
   outptr (fst (capture_stream (init_state 1048576 0 default_options) (replicate 1048576 65 @ [66]) [1048576, 1])) = 0 \<and>
   inptr (fst (capture_stream (init_state 1048576 0 default_options) (replicate 1048576 65 @ [66]) [1048576, 1])) = 1 \<and>
   outptr (fst (capture_stream (init_state 1048576 0 default_options) (replicate 1048576 65 @ [66]) [1048576, 1])) \<noteq>
   inptr (fst (capture_stream (init_state 1048576 0 default_options) (replicate 1048576 65 @ [66]) [1048576, 1])) \<and>
   unread (fst (capture_stream (init_state 1048576 0 default_options) (replicate 1048576 65 @ [66]) [1048576, 1])) = [66] \<and>
   length (unread (fst (capture_stream (init_state 1048576 0 default_options) (replicate 1048576 65 @ [66]) [1048576, 1]))) \<noteq> 1048576"
  by (simp add: init_state_def pty_read_def store_def advance_def endptr_def unread_def todo_def Let_def)

theorem overrun_keeps_last_bytes_witness:
  "snd (capture_stream (init_state 4 0 default_options) [1, 2, 3, 4, 5, 6, 7] [3, 9, 2]) = [7] \<and>
   outptr (fst (capture_stream (init_state 4 0 default_options) [1, 2, 3, 4, 5, 6, 7] [3, 9, 2])) = 0 \<and>
   inptr (fst (capture_stream (init_state 4 0 default_options) [1, 2, 3, 4, 5, 6, 7] [3, 9, 2])) = 2 \<and>
   unread (fst (capture_stream (init_state 4 0 default_options) [1, 2, 3, 4, 5, 6, 7] [3, 9, 2])) = [5, 6]"
proof -
  define r where "r = capture_stream (init_state 4 0 default_options) [1, 2, 3, 4, 5, 6, 7] [3, 9, 2]"
  have s: "snd r = [7]"
    unfolding r_def by code_simp
  have p: "capture_stream (init_state 4 0 default_options) [1, 2, 3, 4, 5, 6, 7] [3, 9, 2] = (fst r, snd r)"
    unfolding r_def by (rule prod.collapse [symmetric])
  have l: "length [1, 2, 3, 4, 5, 6, 7 :: byte] - length (snd r) = 4 + 2"
    unfolding s by simp
  have c: "0 < (4 :: nat)" by simp
  from overrun_keeps_last_bytes [OF c p l]
  have "outptr (fst r) = 0 \<and> inptr (fst r) = 2 \<and> unread (fst r) = [5, 6]" by simp
  with s show ?thesis unfolding r_def by blast
qed

section \<open>Properties of the fan-out and of the main loop\<close>

declare console_write.simps [simp del]

lemma bytes_written_append: "bytes_written (xs @ ys) = bytes_written xs @ bytes_written ys"
  by (induction xs rule: bytes_written.induct) simp_all

lemma opened_paths_append: "opened_paths (xs @ ys) = opened_paths xs @ opened_paths ys"
  by (induction xs rule: opened_paths.induct) simp_all

lemma write_err_result:
  assumes "write_err tr opens p f nm e = Some (fd', tr', opens')"
  shows "\<exists>ev. tr' = tr @ ev \<and> bytes_written ev = [] \<and> set (opened_paths ev) \<subseteq> {nm} \<and>
              (0 \<le> fd' \<or> fd' = - 1)"
  using assms
  by (auto simp: write_err_def open_nb_def Let_def split: if_splits list.splits)

text \<open>What one pass of the loop body does, as three cases.\<close>

lemma console_write_done: "console_write writes opens s considx [] = Some (s, writes, opens)"
  by (simp add: console_write.simps)

lemma console_write_wrote:
  "rest \<noteq> [] \<Longrightarrow>
   console_write (Wrote i # writes) opens s considx rest =
   console_write writes opens
     (s\<lparr> trace := trace s @ [Write (fd (cons s ! considx)) (take i rest)] \<rparr>) considx (drop i rest)"
  by (simp add: console_write.simps)

lemma console_write_cases [consumes 1, case_names finished wrote reopened lost]:
  assumes "console_write writes opens s considx rest = Some (s', writes', opens')"
  obtains
    "rest = []" "s' = s" "writes' = writes" "opens' = opens"
  | i writes1 where "rest \<noteq> []" "writes = Wrote i # writes1"
      "console_write writes1 opens
         (s\<lparr> trace := trace s @ [Write (fd (cons s ! considx)) (take i rest)] \<rparr>)
         considx (drop i rest) = Some (s', writes', opens')"
  | e writes1 fd' tr' opens1 where "rest \<noteq> []" "writes = WriteErr e # writes1"
      "write_err (trace s @ [WriteFailed (fd (cons s ! considx)) e]) opens (pts s)
         (fd (cons s ! considx)) (name (cons s ! considx)) e = Some (fd', tr', opens1)"
      "0 \<le> fd'"
      "console_write writes1 opens1
         (s\<lparr> trace := tr', cons := (cons s)[considx := (cons s ! considx)\<lparr> fd := fd' \<rparr>] \<rparr>)
         considx rest = Some (s', writes', opens')"
  | e writes1 fd' tr' where "rest \<noteq> []" "writes = WriteErr e # writes1"
      "write_err (trace s @ [WriteFailed (fd (cons s ! considx)) e]) opens (pts s)
         (fd (cons s ! considx)) (name (cons s ! considx)) e = Some (fd', tr', opens')"
      "fd' < 0" "writes' = writes1"
      "s' = (if consoles_left s - 1 \<le> 0
             then s\<lparr> trace := tr', cons := (cons s)[considx := (cons s ! considx)\<lparr> fd := fd' \<rparr>],
                     consoles_left := consoles_left s - 1, got_signal := 1 \<rparr>
             else s\<lparr> trace := tr', cons := (cons s)[considx := (cons s ! considx)\<lparr> fd := fd' \<rparr>],
                     consoles_left := consoles_left s - 1 \<rparr>)"
proof -
  note unf = assms [unfolded console_write.simps [of writes opens s considx rest]]
  show ?thesis
  proof (cases "rest = []")
    case True
    with unf that(1) show ?thesis by simp
  next
    case ne: False
    show ?thesis
    proof (cases writes)
      case Nil
      with ne unf show ?thesis by simp
    next
      case (Cons w writes1)
      show ?thesis
      proof (cases w)
        case (Wrote i)
        with ne Cons unf that(2) show ?thesis by simp
      next
        case (WriteErr e)
        show ?thesis
        proof (cases "write_err (trace s @ [WriteFailed (fd (cons s ! considx)) e]) opens (pts s)
           (fd (cons s ! considx)) (name (cons s ! considx)) e")
          case None
          with ne Cons WriteErr unf show ?thesis by simp
        next
          case (Some r)
          obtain fd' tr' opens1 where r: "r = (fd', tr', opens1)" by (cases r)
          show ?thesis
          proof (cases "0 \<le> fd'")
            case True
            with ne Cons WriteErr Some r unf that(3) [of e writes1 fd' tr' opens1] show ?thesis
              by simp
          next
            case False
            with ne Cons WriteErr Some r unf
            have "opens' = opens1" "writes' = writes1"
              and "s' = (if consoles_left s - 1 \<le> 0
             then s\<lparr> trace := tr', cons := (cons s)[considx := (cons s ! considx)\<lparr> fd := fd' \<rparr>],
                     consoles_left := consoles_left s - 1, got_signal := 1 \<rparr>
             else s\<lparr> trace := tr', cons := (cons s)[considx := (cons s ! considx)\<lparr> fd := fd' \<rparr>],
                     consoles_left := consoles_left s - 1 \<rparr>)"
              by (auto simp: Let_def split: if_splits)
            with ne Cons WriteErr Some r False show ?thesis
              by (intro that(4) [of e writes1 fd' tr']) simp_all
          qed
        qed
      qed
    qed
  qed
qed

lemma name_update_fd: "name ((xs[i := (xs ! i)\<lparr> fd := f \<rparr>]) ! j) = name (xs ! j)"
  by (cases "i < length xs") (simp_all add: nth_list_update list_update_beyond)

lemma map_name_update_fd: "map name (xs[i := (xs ! i)\<lparr> fd := f \<rparr>]) = map name xs"
  by (rule nth_equalityI) (simp_all add: name_update_fd)

lemma console_write_cons:
  "console_write writes opens s considx rest = Some (s', writes', opens') \<Longrightarrow>
   didnl s' = didnl s \<and>
   map name (cons s') = map name (cons s) \<and> (\<forall>j. j \<noteq> considx \<longrightarrow> cons s' ! j = cons s ! j)"
proof (induction writes arbitrary: s opens rest)
  case Nil
  from Nil.prems show ?case by (cases rule: console_write_cases) simp_all
next
  case (Cons w writes)
  from Cons.prems show ?case
  proof (cases rule: console_write_cases)
    case finished
    then show ?thesis by simp
  next
    case (wrote i writes1)
    then have "writes1 = writes" by simp
    from Cons.IH [OF wrote(3) [unfolded this]] show ?thesis by simp
  next
    case (reopened e writes1 fd' tr' opens1)
    then have "writes1 = writes" by simp
    from Cons.IH [OF reopened(5) [unfolded this]] show ?thesis
      by (simp add: map_name_update_fd)
  next
    case (lost e writes1 fd' tr')
    then show ?thesis by (simp add: map_name_update_fd split: if_splits)
  qed
qed

lemma console_write_trace:
  "console_write writes opens s considx rest = Some (s', writes', opens') \<Longrightarrow>
   \<exists>new. trace s' = trace s @ new \<and> set (opened_paths new) \<subseteq> {name (cons s ! considx)} \<and>
         (considx < length (cons s) \<longrightarrow> 0 \<le> fd (cons s' ! considx) \<longrightarrow> bytes_written new = rest)"
proof (induction writes arbitrary: s opens rest)
  case Nil
  from Nil.prems show ?case by (cases rule: console_write_cases) simp_all
next
  case (Cons w writes)
  from Cons.prems show ?case
  proof (cases rule: console_write_cases)
    case finished
    then show ?thesis by simp
  next
    case (wrote i writes1)
    then have "writes1 = writes" by simp
    from Cons.IH [OF wrote(3) [unfolded this]]
    obtain new where n: "trace s' = (trace s @ [Write (fd (cons s ! considx)) (take i rest)]) @ new"
      and p: "set (opened_paths new) \<subseteq> {name (cons s ! considx)}"
      and b: "considx < length (cons s) \<longrightarrow> 0 \<le> fd (cons s' ! considx) \<longrightarrow>
              bytes_written new = drop i rest"
      by auto
    show ?thesis
    proof (intro exI conjI)
      show "trace s' = trace s @ (Write (fd (cons s ! considx)) (take i rest) # new)"
        using n by simp
      show "set (opened_paths (Write (fd (cons s ! considx)) (take i rest) # new))
            \<subseteq> {name (cons s ! considx)}"
        using p by simp
      show "considx < length (cons s) \<longrightarrow> 0 \<le> fd (cons s' ! considx) \<longrightarrow>
            bytes_written (Write (fd (cons s ! considx)) (take i rest) # new) = rest"
        using b by simp
    qed
  next
    case (reopened e writes1 fd' tr' opens1)
    then have "writes1 = writes" by simp
    from Cons.IH [OF reopened(5) [unfolded this]]
    obtain new where n: "trace s' = tr' @ new"
      and p: "set (opened_paths new) \<subseteq> {name (cons s ! considx)}"
      and b: "considx < length (cons s) \<longrightarrow> 0 \<le> fd (cons s' ! considx) \<longrightarrow>
              bytes_written new = rest"
      by (auto simp: name_update_fd)
    from write_err_result [OF reopened(3)]
    obtain ev where e: "tr' = (trace s @ [WriteFailed (fd (cons s ! considx)) e]) @ ev"
      and eb: "bytes_written ev = []" and ep: "set (opened_paths ev) \<subseteq> {name (cons s ! considx)}"
      by auto
    show ?thesis
    proof (intro exI conjI)
      show "trace s' = trace s @ (WriteFailed (fd (cons s ! considx)) e # ev @ new)"
        using n e by simp
      show "set (opened_paths (WriteFailed (fd (cons s ! considx)) e # ev @ new))
            \<subseteq> {name (cons s ! considx)}"
        using p ep by (simp add: opened_paths_append)
      show "considx < length (cons s) \<longrightarrow> 0 \<le> fd (cons s' ! considx) \<longrightarrow>
            bytes_written (WriteFailed (fd (cons s ! considx)) e # ev @ new) = rest"
        using b eb by (simp add: bytes_written_append)
    qed
  next
    case (lost e writes1 fd' tr')
    from write_err_result [OF lost(3)]
    obtain ev where e: "tr' = (trace s @ [WriteFailed (fd (cons s ! considx)) e]) @ ev"
      and ep: "set (opened_paths ev) \<subseteq> {name (cons s ! considx)}"
      by auto
    show ?thesis
    proof (intro exI conjI)
      show "trace s' = trace s @ (WriteFailed (fd (cons s ! considx)) e # ev)"
        using lost(6) e by (simp split: if_splits)
      show "set (opened_paths (WriteFailed (fd (cons s ! considx)) e # ev))
            \<subseteq> {name (cons s ! considx)}"
        using ep by simp
      show "considx < length (cons s) \<longrightarrow> 0 \<le> fd (cons s' ! considx) \<longrightarrow>
            bytes_written (WriteFailed (fd (cons s ! considx)) e # ev) = rest"
        using lost(4,6) by (simp split: if_splits)
    qed
  qed
qed

lemma console_write_signal:
  "console_write writes opens s considx rest = Some (s', writes', opens') \<Longrightarrow>
   consoles_left s' \<le> consoles_left s \<and>
   (got_signal s' = got_signal s \<or> got_signal s' = 1) \<and>
   (consoles_left s' < consoles_left s \<and> consoles_left s' \<le> 0 \<longrightarrow> got_signal s' = 1)"
proof (induction writes arbitrary: s opens rest)
  case Nil
  from Nil.prems show ?case by (cases rule: console_write_cases) simp_all
next
  case (Cons w writes)
  from Cons.prems show ?case
  proof (cases rule: console_write_cases)
    case finished
    then show ?thesis by simp
  next
    case (wrote i writes1)
    then have "writes1 = writes" by simp
    from Cons.IH [OF wrote(3) [unfolded this]] show ?thesis by simp
  next
    case (reopened e writes1 fd' tr' opens1)
    then have "writes1 = writes" by simp
    from Cons.IH [OF reopened(5) [unfolded this]] show ?thesis by simp
  next
    case (lost e writes1 fd' tr')
    then show ?thesis by (simp split: if_splits)
  qed
qed


lemma fanout_loop_cons:
  "fanout_loop idxs writes opens s bs = Some (s', writes', opens') \<Longrightarrow>
   didnl s' = didnl s \<and>
   map name (cons s') = map name (cons s) \<and>
   (\<forall>j. fd (cons s ! j) < 0 \<longrightarrow> cons s' ! j = cons s ! j)"
proof (induction idxs arbitrary: writes opens s)
  case Nil
  then show ?case by simp
next
  case (Cons considx idxs)
  show ?case
  proof (cases "fd (cons s ! considx) < 0")
    case True
    with Cons.prems Cons.IH show ?thesis by simp
  next
    case False
    with Cons.prems obtain s1 writes1 opens1
      where c: "console_write writes opens s considx bs = Some (s1, writes1, opens1)"
        and f: "fanout_loop idxs writes1 opens1 s1 bs = Some (s', writes', opens')"
      by (auto split: option.splits)
    from console_write_cons [OF c]
    have n1: "map name (cons s1) = map name (cons s)" and d1: "didnl s1 = didnl s"
      and o1: "\<And>j. j \<noteq> considx \<Longrightarrow> cons s1 ! j = cons s ! j" by simp_all
    from Cons.IH [OF f]
    have n2: "map name (cons s') = map name (cons s1)" and d2: "didnl s' = didnl s1"
      and o2: "\<And>j. fd (cons s1 ! j) < 0 \<Longrightarrow> cons s' ! j = cons s1 ! j" by simp_all
    have "cons s' ! j = cons s ! j" if d: "fd (cons s ! j) < 0" for j
    proof -
      from d False have "j \<noteq> considx" by auto
      then have "cons s1 ! j = cons s ! j" by (rule o1)
      with d o2 [of j] show ?thesis by simp
    qed
    with n1 n2 d1 d2 show ?thesis by simp
  qed
qed

lemma name_in_cons: "i < length (cons s) \<Longrightarrow> name (cons s ! i) \<in> set (map name (cons s))"
  by simp

lemma fanout_loop_trace:
  "fanout_loop idxs writes opens s bs = Some (s', writes', opens') \<Longrightarrow>
   \<forall>i\<in>set idxs. i < length (cons s) \<Longrightarrow>
   \<exists>new. trace s' = trace s @ new \<and> set (opened_paths new) \<subseteq> set (map name (cons s))"
proof (induction idxs arbitrary: writes opens s)
  case Nil
  then show ?case by simp
next
  case (Cons considx idxs)
  show ?case
  proof (cases "fd (cons s ! considx) < 0")
    case True
    with Cons.prems Cons.IH [of writes opens s] show ?thesis by simp
  next
    case False
    with Cons.prems(1) obtain s1 writes1 opens1
      where c: "console_write writes opens s considx bs = Some (s1, writes1, opens1)"
        and f: "fanout_loop idxs writes1 opens1 s1 bs = Some (s', writes', opens')"
      by (auto split: option.splits)
    from console_write_cons [OF c] have n1: "map name (cons s1) = map name (cons s)" by simp
    then have l1: "length (cons s1) = length (cons s)" by (metis length_map)
    from console_write_trace [OF c] obtain new1
      where t1: "trace s1 = trace s @ new1"
        and p1: "set (opened_paths new1) \<subseteq> {name (cons s ! considx)}" by auto
    from Cons.prems(2) have "considx < length (cons s)" by simp
    then have "name (cons s ! considx) \<in> set (map name (cons s))" by (rule name_in_cons)
    with p1 have p1': "set (opened_paths new1) \<subseteq> set (map name (cons s))" by auto
    from Cons.prems(2) l1 have "\<forall>i\<in>set idxs. i < length (cons s1)" by simp
    from Cons.IH [OF f this] obtain new2
      where t2: "trace s' = trace s1 @ new2"
        and p2: "set (opened_paths new2) \<subseteq> set (map name (cons s1))" by auto
    show ?thesis
    proof (intro exI conjI)
      show "trace s' = trace s @ (new1 @ new2)" using t1 t2 by simp
      show "set (opened_paths (new1 @ new2)) \<subseteq> set (map name (cons s))"
        using p1' p2 n1 by (simp add: opened_paths_append)
    qed
  qed
qed

lemma fanout_loop_signal:
  "fanout_loop idxs writes opens s bs = Some (s', writes', opens') \<Longrightarrow>
   consoles_left s' \<le> consoles_left s \<and>
   (got_signal s' = got_signal s \<or> got_signal s' = 1) \<and>
   (consoles_left s' < consoles_left s \<and> consoles_left s' \<le> 0 \<longrightarrow> got_signal s' = 1)"
proof (induction idxs arbitrary: writes opens s)
  case Nil
  then show ?case by simp
next
  case (Cons considx idxs)
  show ?case
  proof (cases "fd (cons s ! considx) < 0")
    case True
    with Cons.prems Cons.IH show ?thesis by simp
  next
    case False
    with Cons.prems obtain s1 writes1 opens1
      where c: "console_write writes opens s considx bs = Some (s1, writes1, opens1)"
        and f: "fanout_loop idxs writes1 opens1 s1 bs = Some (s', writes', opens')"
      by (auto split: option.splits)
    from console_write_signal [OF c] Cons.IH [OF f] show ?thesis by auto
  qed
qed

text \<open>The rest of a turn leaves the consoles, the count and the flags alone.\<close>

lemma writelog_fields:
  "cons (writelog s p n) = cons s" "consoles_left (writelog s p n) = consoles_left s"
  "got_signal (writelog s p n) = got_signal s" "didnl (writelog s p n) = didnl s"
  "fp (writelog s p n) = fp s"
  "\<exists>new. trace (writelog s p n) = trace s @ new \<and> opened_paths new = []"
  by (auto simp: writelog_def Let_def split: prod.splits)

lemma drain_fields:
  "cons (drain s) = cons s" "consoles_left (drain s) = consoles_left s"
  "got_signal (drain s) = got_signal s" "didnl (drain s) = didnl s"
  "fp (drain s) = fp s"
  "\<exists>new. trace (drain s) = trace s @ new \<and> opened_paths new = []"
  using writelog_fields [of s "outptr s" "todo s"] by (auto simp: drain_def)

lemma open_logfile_fields:
  "cons (open_logfile s e) = cons s" "consoles_left (open_logfile s e) = consoles_left s"
  "got_signal (open_logfile s e) = got_signal s" "didnl (open_logfile s e) = didnl s"
  "\<exists>new. trace (open_logfile s e) = trace s @ new \<and> opened_paths new = []"
  by (auto simp: open_logfile_def Let_def)

lemma advance_store_fields:
  "cons (advance s n) = cons s" "consoles_left (advance s n) = consoles_left s"
  "got_signal (advance s n) = got_signal s" "didnl (advance s n) = didnl s"
  "trace (advance s n) = trace s"
  "cons (store s bs) = cons s" "consoles_left (store s bs) = consoles_left s"
  "got_signal (store s bs) = got_signal s" "didnl (store s bs) = didnl s"
  "trace (store s bs) = trace s"
  by (simp_all add: advance_def store_def Let_def)

lemma read_and_fanout_fields:
  assumes "read_and_fanout s e = Some s'"
  shows "didnl s' = didnl s"
    and "map name (cons s') = map name (cons s)"
    and "\<forall>j. fd (cons s ! j) < 0 \<longrightarrow> cons s' ! j = cons s ! j"
    and "consoles_left s' \<le> consoles_left s \<and>
         (got_signal s' = got_signal s \<or> got_signal s' = 1) \<and>
         (consoles_left s' < consoles_left s \<and> consoles_left s' \<le> 0 \<longrightarrow> got_signal s' = 1)"
    and "\<exists>new. trace s' = trace s @ new \<and> set (opened_paths new) \<subseteq> set (map name (cons s))"
proof -
  have "didnl s' = didnl s \<and>
    map name (cons s') = map name (cons s) \<and>
    (\<forall>j. fd (cons s ! j) < 0 \<longrightarrow> cons s' ! j = cons s ! j) \<and>
    (consoles_left s' \<le> consoles_left s \<and>
         (got_signal s' = got_signal s \<or> got_signal s' = 1) \<and>
         (consoles_left s' < consoles_left s \<and> consoles_left s' \<le> 0 \<longrightarrow> got_signal s' = 1)) \<and>
    (\<exists>new. trace s' = trace s @ new \<and> set (opened_paths new) \<subseteq> set (map name (cons s)))"
  proof (cases "ev_select e = 1 \<and> ev_read e \<noteq> None")
    case False
    with assms have "s' = s" by (auto simp: read_and_fanout_def split: if_splits option.splits)
    then show ?thesis by simp
  next
    case True
    then obtain avail where a: "ev_read e = Some avail" and sel: "ev_select e = 1" by auto
    let ?bs = "pty_read s avail"
    let ?s1 = "store s ?bs"
    from assms a sel obtain s2 writes' opens'
      where f: "fanout_loop [0..<length (cons ?s1)] (ev_writes e) (ev_opens e) ?s1 ?bs
                  = Some (s2, writes', opens')"
        and s': "s' = advance s2 (length ?bs)"
      by (auto simp: read_and_fanout_def fanout_def Let_def split: option.splits)
    have idx: "\<forall>i\<in>set [0..<length (cons ?s1)]. i < length (cons ?s1)" by simp
    from fanout_loop_cons [OF f] fanout_loop_signal [OF f] fanout_loop_trace [OF f idx] s'
    show ?thesis by (simp add: advance_store_fields)
  qed
  then show "didnl s' = didnl s"
    and "map name (cons s') = map name (cons s)"
    and "\<forall>j. fd (cons s ! j) < 0 \<longrightarrow> cons s' ! j = cons s ! j"
    and "consoles_left s' \<le> consoles_left s \<and>
         (got_signal s' = got_signal s \<or> got_signal s' = 1) \<and>
         (consoles_left s' < consoles_left s \<and> consoles_left s' \<le> 0 \<longrightarrow> got_signal s' = 1)"
    and "\<exists>new. trace s' = trace s @ new \<and> set (opened_paths new) \<subseteq> set (map name (cons s))"
    by blast+
qed


lemma iteration_fields:
  assumes "iteration s e = Some s'"
  shows "didnl s' = didnl s"
    and "map name (cons s') = map name (cons s)"
    and "\<forall>j. fd (cons s ! j) < 0 \<longrightarrow> cons s' ! j = cons s ! j"
    and "consoles_left s' \<le> consoles_left s \<and>
         (got_signal s' = got_signal s \<or> got_signal s' = 1) \<and>
         (consoles_left s' < consoles_left s \<and> consoles_left s' \<le> 0 \<longrightarrow> got_signal s' = 1)"
    and "\<exists>new. trace s' = trace s @ new \<and> set (opened_paths new) \<subseteq> set (map name (cons s))"
proof -
  from assms obtain s1 where r: "read_and_fanout s e = Some s1"
    and s': "s' = drain (open_logfile s1 e)"
    by (auto simp: iteration_def split: option.splits)
  note f = read_and_fanout_fields [OF r]
  from s' f(1) show "didnl s' = didnl s" by (simp add: drain_fields open_logfile_fields)
  from s' f(2) show "map name (cons s') = map name (cons s)"
    by (simp add: drain_fields open_logfile_fields)
  from s' f(3) show "\<forall>j. fd (cons s ! j) < 0 \<longrightarrow> cons s' ! j = cons s ! j"
    by (simp add: drain_fields open_logfile_fields)
  from s' f(4) show "consoles_left s' \<le> consoles_left s \<and>
         (got_signal s' = got_signal s \<or> got_signal s' = 1) \<and>
         (consoles_left s' < consoles_left s \<and> consoles_left s' \<le> 0 \<longrightarrow> got_signal s' = 1)"
    by (simp add: drain_fields open_logfile_fields)
  from f(5) obtain n1 where t1: "trace s1 = trace s @ n1"
    and p1: "set (opened_paths n1) \<subseteq> set (map name (cons s))" by auto
  from open_logfile_fields(5) [of s1 e] obtain n2
    where t2: "trace (open_logfile s1 e) = trace s1 @ n2" and p2: "opened_paths n2 = []" by auto
  from drain_fields(6) [of "open_logfile s1 e"] obtain n3
    where t3: "trace (drain (open_logfile s1 e)) = trace (open_logfile s1 e) @ n3"
      and p3: "opened_paths n3 = []" by auto
  show "\<exists>new. trace s' = trace s @ new \<and> set (opened_paths new) \<subseteq> set (map name (cons s))"
  proof (intro exI conjI)
    show "trace s' = trace s @ (n1 @ n2 @ n3)" using s' t1 t2 t3 by simp
    show "set (opened_paths (n1 @ n2 @ n3)) \<subseteq> set (map name (cons s))"
      using p1 p2 p3 by (simp add: opened_paths_append)
  qed
qed

lemma deliver_fields:
  "didnl (deliver sig s) = didnl s" "cons (deliver sig s) = cons s"
  "trace (deliver sig s) = trace s" "consoles_left (deliver sig s) = consoles_left s"
  "fp (deliver sig s) = fp s" "logfile (deliver sig s) = logfile s"
  by (simp_all add: deliver_def handler_def)

lemma main_loop_fields:
  "main_loop s es = Some s' \<Longrightarrow>
   got_signal s' \<noteq> 0 \<and> didnl s' = didnl s \<and> map name (cons s') = map name (cons s) \<and>
   (\<forall>j. fd (cons s ! j) < 0 \<longrightarrow> cons s' ! j = cons s ! j) \<and>
   (\<exists>new. trace s' = trace s @ new \<and> set (opened_paths new) \<subseteq> set (map name (cons s)))"
proof (induction es arbitrary: s)
  case Nil
  then show ?case by (simp split: if_splits)
next
  case (Cons e es)
  show ?case
  proof (cases "got_signal s \<noteq> 0")
    case True
    with Cons.prems show ?thesis by simp
  next
    case False
    with Cons.prems obtain s1 where i: "iteration s e = Some s1"
      and m: "main_loop (deliver (ev_signal e) s1) es = Some s'"
      by (auto split: option.splits)
    note f = iteration_fields [OF i]
    note g = Cons.IH [OF m, unfolded deliver_fields]
    from f(5) obtain n1 where t1: "trace s1 = trace s @ n1"
      and p1: "set (opened_paths n1) \<subseteq> set (map name (cons s))" by auto
    from g obtain n2 where t2: "trace s' = trace s1 @ n2"
      and p2: "set (opened_paths n2) \<subseteq> set (map name (cons s1))" by auto
    have "\<exists>new. trace s' = trace s @ new \<and> set (opened_paths new) \<subseteq> set (map name (cons s))"
    proof (intro exI conjI)
      show "trace s' = trace s @ (n1 @ n2)" using t1 t2 by simp
      show "set (opened_paths (n1 @ n2)) \<subseteq> set (map name (cons s))"
        using p1 p2 f(2) by (simp add: opened_paths_append)
    qed
    moreover have "\<forall>j. fd (cons s ! j) < 0 \<longrightarrow> cons s' ! j = cons s ! j"
      using f(3) g by auto
    ultimately show ?thesis using f(1,2) g by simp
  qed
qed

text \<open>
  The byte that a drain finds before its span: the one below \<open>outptr\<close> in the
  arena, and \<open>below\<close>, outside the arena, when \<open>outptr\<close> is at its start.
\<close>

lemma drain_prev_byte:
  assumes "fp s" and "todo s \<noteq> 0"
  shows "logfile (drain s) =
         logfile s @
         snd (writelog_loop (lg s) (if outptr s = 0 then below s else ringbuf s ! (outptr s - 1))
                (unread s))"
  using assms by (simp add: drain_def writelog_def unread_def Let_def split_beta)

text \<open>
  C3. A console at \<open>considx\<close> with descriptor \<open>f0\<close> and path \<open>nm\<close>, and a
  span of which a first write accepts \<open>k\<close> bytes, fewer than all. If the next write
  fails with EIO and the open of \<open>nm\<close> gives \<open>f1\<close>, the old descriptor is
  closed and the rest of the span goes to \<open>f1\<close>; if that open fails, or if the
  write fails with another error (no open is tried then), the console gets descriptor -1
  and \<open>consoles_left\<close> goes down by one. A console with a negative descriptor is
  skipped by the fan-out and keeps that descriptor to the end of the loop. Whatever the
  answers of the system, a console still open when its loop ends has been handed the whole
  span, over all its descriptors.
\<close>

theorem console_hangup_recovery:
  assumes "considx < length (cons s)" and "k < length bs"
    and "f0 = fd (cons s ! considx)" and "nm = name (cons s ! considx)"
  shows
    "(0 \<le> f1 \<longrightarrow>
        console_write (Wrote k # WriteErr EIO # Wrote (length bs - k) # writes) (f1 # opens) s considx bs =
        Some (s\<lparr> trace := trace s @ [Write f0 (take k bs), WriteFailed f0 EIO, Close f0,
                                      OpenNb nm f1, Write f1 (drop k bs)],
                  cons := (cons s)[considx := \<lparr> name = nm, fd = f1 \<rparr>] \<rparr>, writes, opens)) \<and>
     (r < 0 \<longrightarrow>
        console_write (Wrote k # WriteErr EIO # writes) (r # opens) s considx bs =
        (let s2 = s\<lparr> trace := trace s @ [Write f0 (take k bs), WriteFailed f0 EIO, Close f0,
                                         OpenNb nm r, Close (pts s)],
                     cons := (cons s)[considx := \<lparr> name = nm, fd = - 1 \<rparr>],
                     consoles_left := consoles_left s - 1 \<rparr>
         in Some (if consoles_left s - 1 \<le> 0 then s2\<lparr> got_signal := 1 \<rparr> else s2, writes, opens))) \<and>
     (e \<noteq> EIO \<longrightarrow>
        console_write (Wrote k # WriteErr e # writes) opens s considx bs =
        (let s2 = s\<lparr> trace := trace s @ [Write f0 (take k bs), WriteFailed f0 e, Close (pts s)],
                     cons := (cons s)[considx := \<lparr> name = nm, fd = - 1 \<rparr>],
                     consoles_left := consoles_left s - 1 \<rparr>
         in Some (if consoles_left s - 1 \<le> 0 then s2\<lparr> got_signal := 1 \<rparr> else s2, writes, opens))) \<and>
     (f0 < 0 \<longrightarrow>
        fanout_loop (considx # idxs) writes opens s bs = fanout_loop idxs writes opens s bs) \<and>
     (f0 < 0 \<longrightarrow> main_loop s es = Some s' \<longrightarrow> cons s' ! considx = cons s ! considx) \<and>
     (console_write ws os s considx bs = Some (s1, ws1, os1) \<longrightarrow> 0 \<le> fd (cons s1 ! considx) \<longrightarrow>
        bytes_written (drop (length (trace s)) (trace s1)) = bs)"
proof -
  from assms(2) have ne: "bs \<noteq> []" "drop k bs \<noteq> []" by auto
  have upd: "(cons s ! considx)\<lparr> fd := x \<rparr> = \<lparr> name = nm, fd = x \<rparr>" for x
    using assms(4) by (cases "cons s ! considx") simp
  let ?s1 = "s\<lparr> trace := trace s @ [Write f0 (take k bs)] \<rparr>"
  have first: "console_write (Wrote k # w) os s considx bs = console_write w os ?s1 considx (drop k bs)"
    for w os
    using ne(1) assms(3) by (simp add: console_write_wrote)
  have a: "console_write (WriteErr EIO # Wrote (length bs - k) # writes) (f1 # opens) ?s1 considx (drop k bs) =
        Some (s\<lparr> trace := trace s @ [Write f0 (take k bs), WriteFailed f0 EIO, Close f0,
                                      OpenNb nm f1, Write f1 (drop k bs)],
                  cons := (cons s)[considx := \<lparr> name = nm, fd = f1 \<rparr>] \<rparr>, writes, opens)"
    if "0 \<le> f1"
    using that ne(2) assms(1,3,4)
    apply (subst console_write.simps)
    apply (simp add: write_err_def open_nb_def upd)
    apply (subst console_write.simps)
    apply (simp add: upd)
    apply (subst console_write.simps)
    apply simp
    done
  have b: "console_write (WriteErr EIO # writes) (r # opens) ?s1 considx (drop k bs) =
        (let s2 = s\<lparr> trace := trace s @ [Write f0 (take k bs), WriteFailed f0 EIO, Close f0,
                                         OpenNb nm r, Close (pts s)],
                     cons := (cons s)[considx := \<lparr> name = nm, fd = - 1 \<rparr>],
                     consoles_left := consoles_left s - 1 \<rparr>
         in Some (if consoles_left s - 1 \<le> 0 then s2\<lparr> got_signal := 1 \<rparr> else s2, writes, opens))"
    if "r < 0"
    using that ne(2) assms(1,3,4)
    apply (subst console_write.simps)
    apply (simp add: write_err_def open_nb_def upd Let_def)
    done
  have c: "console_write (WriteErr e # writes) opens ?s1 considx (drop k bs) =
        (let s2 = s\<lparr> trace := trace s @ [Write f0 (take k bs), WriteFailed f0 e, Close (pts s)],
                     cons := (cons s)[considx := \<lparr> name = nm, fd = - 1 \<rparr>],
                     consoles_left := consoles_left s - 1 \<rparr>
         in Some (if consoles_left s - 1 \<le> 0 then s2\<lparr> got_signal := 1 \<rparr> else s2, writes, opens))"
    if "e \<noteq> EIO"
    using that ne(2) assms(1,3,4)
    apply (subst console_write.simps)
    apply (simp add: write_err_def open_nb_def upd Let_def)
    done
  have d: "fanout_loop (considx # idxs) writes opens s bs = fanout_loop idxs writes opens s bs"
    if "f0 < 0"
    using that assms(3) by simp
  have m: "cons s' ! considx = cons s ! considx" if "f0 < 0" "main_loop s es = Some s'"
    using main_loop_fields [OF that(2)] that(1) assms(3) by simp
  have g: "bytes_written (drop (length (trace s)) (trace s1)) = bs"
    if "console_write ws os s considx bs = Some (s1, ws1, os1)" "0 \<le> fd (cons s1 ! considx)"
    using console_write_trace [OF that(1)] that(2) assms(1) by auto
  from a b c d m g show ?thesis unfolding first by blast
qed

theorem console_hangup_recovery_witness:
  "console_write [Wrote 40, WriteErr EIO, Wrote 60] [4] example_state 0
       (replicate 40 65 @ replicate 60 66) =
     Some (example_state
            \<lparr> trace := [Write 3 (replicate 40 65), WriteFailed 3 EIO, Close 3,
                        OpenNb ''/dev/ttyS0'' 4, Write 4 (replicate 60 66)],
              cons := [\<lparr> name = ''/dev/ttyS0'', fd = 4 \<rparr>] \<rparr>, [], []) \<and>
   length (replicate 40 65 @ replicate 60 (66 :: byte)) = 100 \<and>
   console_write [Wrote 40, WriteErr EIO] [- 1] example_state 0
       (replicate 40 65 @ replicate 60 66) =
     Some (example_state
            \<lparr> trace := [Write 3 (replicate 40 65), WriteFailed 3 EIO, Close 3,
                        OpenNb ''/dev/ttyS0'' (- 1), Close 7],
              cons := [\<lparr> name = ''/dev/ttyS0'', fd = - 1 \<rparr>],
              consoles_left := 0, got_signal := 1 \<rparr>, [], [])"
proof -
  have "0 < length (cons example_state)"
    and "40 < length (replicate 40 65 @ replicate 60 (66 :: byte))"
    and "3 = fd (cons example_state ! 0)"
    and "''/dev/ttyS0'' = name (cons example_state ! 0)"
    by (simp_all add: example_state_def)
  from console_hangup_recovery [OF this, where ?f1.0 = 4 and r = "- 1" and writes = "[]" and opens = "[]"]
  show ?thesis
    by (simp add: example_state_def init_state_def)
qed

text \<open>
  C4. A turn of the running loop in which \<open>consoles_left\<close> goes down and reaches
  zero or less, with no signal delivered: \<open>got_signal\<close> is 1 after the turn, the
  loop is left with the state of that turn whatever events would follow, and the shutdown
  closes the log file if it is open, the two sides of the pty and the consoles.
\<close>

theorem consoles_lost_begins_shutdown:
  assumes "got_signal s = 0"
    and "iteration s e = Some s1"
    and "consoles_left s1 < consoles_left s"
    and "consoles_left s1 \<le> 0"
    and "ev_signal e = 0"
  shows "got_signal s1 = 1 \<and> main_loop s (e # es) = Some s1 \<and>
         \<not> fp (shutdown s1) \<and>
         trace (shutdown s1) =
           trace s1 @ (if fp s1 then [Fclose] else []) @
           [Close (pts s1), Close (ptm s1)] @ map (\<lambda>c. Close (fd c)) (cons s1)"
proof -
  from iteration_fields(4) [OF assms(2)] assms(3,4) have g: "got_signal s1 = 1" by simp
  have "main_loop s (e # es) = main_loop (deliver (ev_signal e) s1) es"
    using assms(1,2) by simp
  also have "\<dots> = Some s1"
    using g assms(5) by (cases es) (simp_all add: deliver_def)
  finally have "main_loop s (e # es) = Some s1" .
  with g show ?thesis by (simp add: shutdown_def Let_def)
qed

lemma example_turn:
  "iteration example_state example_event =
     Some (example_state
       \<lparr> ringbuf := [104, 105] @ replicate 6 0, inptr := 2, outptr := 2, got_signal := 1,
         lg := \<lparr> first_run = False, inside_esc = 0, ticks = 1 \<rparr>, fp := True,
         logfile := [Stamp 0, Data 104, Data 105],
         cons := [\<lparr> name = ''/dev/ttyS0'', fd = - 1 \<rparr>], consoles_left := 0,
         trace := [WriteFailed 3 11, Close 7, Fopen ''/run/log/stage-1.log'' True, Fflush] \<rparr>)"
  by (simp add: iteration_def read_and_fanout_def fanout_def console_write.simps write_err_def
      EIO_def pty_read_def store_def advance_def endptr_def open_logfile_def drain_def todo_def
      writelog_def writelog_byte_def esc_step_def logger_init_def
      example_state_def example_event_def init_state_def default_options_def Let_def)


theorem consoles_lost_begins_shutdown_witness:
  "got_signal example_state = 0 \<and> ev_signal example_event = 0 \<and>
   consoles_left example_state = 1 \<and> consoles_left example_after = 0 \<and>
   got_signal example_after = 1 \<and>
   main_loop example_state [example_event] = Some example_after \<and>
   trace (shutdown example_after) =
     [WriteFailed 3 11, Close 7, Fopen ''/run/log/stage-1.log'' True, Fflush, Fclose,
      Close 7, Close 6, Close (- 1)]"
proof -
  have a: "got_signal example_state = 0" and l: "consoles_left example_state = 1"
    by (simp_all add: example_state_def init_state_def)
  have i: "iteration example_state example_event = Some example_after"
    unfolding example_after_def by (rule example_turn)
  have b: "consoles_left example_after < consoles_left example_state"
    and c: "consoles_left example_after \<le> 0"
    and d: "ev_signal example_event = 0"
    by (simp_all add: example_after_def example_state_def init_state_def example_event_def)
  from consoles_lost_begins_shutdown [OF a i b c d, of "[]"] a l d
  show ?thesis
    by (simp add: example_after_def example_state_def init_state_def)
qed

lemma open_consoles_result:
  "open_consoles names opens s = Some s' \<Longrightarrow>
   didnl s' = didnl s \<and>
   map name (cons s') = map name (cons s) @ map console_path names \<and>
   opened_paths (trace s') = opened_paths (trace s) @ map console_path names"
proof (induction names arbitrary: opens s)
  case Nil
  then show ?case by simp
next
  case (Cons n names)
  from Cons.prems obtain r opens1 where o: "opens = r # opens1"
    by (cases opens) simp_all
  let ?fd = "if r < 0 then - 1 else r"
  let ?s1 = "s\<lparr> cons := cons s @ [\<lparr> name = console_path n, fd = ?fd \<rparr>],
                 trace := trace s @ [OpenNb (console_path n) r] \<rparr>"
  let ?s2 = "if ?fd < 0 then ?s1\<lparr> consoles_left := consoles_left ?s1 - 1 \<rparr> else ?s1"
  from Cons.prems o have "open_consoles names opens1 ?s2 = Some s'"
    by (simp add: open_nb_def Let_def split: if_splits)
  from Cons.IH [OF this] show ?case
    by (simp add: opened_paths_append split: if_splits)
qed

lemma console_path_not_zero:
  "console_path n \<noteq> ''/dev/tty0''" "console_path n \<noteq> ''/dev/vc/0''"
  by (simp_all add: console_path_def Let_def)

lemma shutdown_fields:
  "opened_paths (trace (shutdown s)) = opened_paths (trace s)"
  "logfile (shutdown s) = logfile s @ (if fp s \<and> didnl s = 0 then [Data 10] else [])"
proof -
  have "opened_paths (map (\<lambda>c. Close (fd c)) cs) = []" for cs :: "real_cons list"
    by (induction cs) simp_all
  then show "opened_paths (trace (shutdown s)) = opened_paths (trace s)"
    by (simp add: shutdown_def Let_def opened_paths_append)
  show "logfile (shutdown s) = logfile s @ (if fp s \<and> didnl s = 0 then [Data 10] else [])"
    by (simp add: shutdown_def Let_def)
qed

text \<open>A run of \<open>main\<close> that ends with status 0 went through the loop.\<close>

lemma main_exit_0:
  assumes "main sz lowbyte opts b es = Some (0, sf)"
  obtains s1 m sl s3 where
    "open_consoles (boot_names b) (boot_opens b)
       ((init_state sz lowbyte opts)\<lparr> consoles_left := int (length (boot_names b)) \<rparr>) = Some s1"
    "main_loop (s1\<lparr> ptm := m, pts := sl,
        trace := trace s1 @ OpenRdwr ''/dev/tty0'' (boot_tty0 b) #
          (if boot_tty0 b \<ge> 0 then [Close (boot_tty0 b)] else []) \<rparr>) es = Some s3"
    "sf = shutdown s3"
  using assms
  by (auto simp: main_def Let_def split: if_splits option.splits)


lemma init_state_fields:
  "didnl (init_state sz lowbyte opts) = 1" "trace (init_state sz lowbyte opts) = []"
  "cons (init_state sz lowbyte opts) = []"
  by (simp_all add: init_state_def)

lemma main_opened_paths:
  assumes "main sz lowbyte opts b es = Some (code, sf)"
  shows "set (opened_paths (trace sf)) \<subseteq> console_path ` set (boot_names b)"
proof (cases "boot_names b = []")
  case True
  with assms have "sf = init_state sz lowbyte opts" by (simp add: main_def Let_def)
  then show ?thesis by (simp add: init_state_fields)
next
  case False
  let ?s0 = "(init_state sz lowbyte opts)\<lparr> consoles_left := int (length (boot_names b)) \<rparr>"
  from assms False obtain s1
    where o: "open_consoles (boot_names b) (boot_opens b) ?s0 = Some s1"
    by (auto simp: main_def Let_def split: option.splits)
  from open_consoles_result [OF o]
  have n1: "map name (cons s1) = map console_path (boot_names b)"
    and p1: "opened_paths (trace s1) = map console_path (boot_names b)"
    by (simp_all add: init_state_fields)
  let ?s2 = "\<lambda>m sl. s1\<lparr> ptm := m, pts := sl,
        trace := trace s1 @ OpenRdwr ''/dev/tty0'' (boot_tty0 b) #
          (if boot_tty0 b \<ge> 0 then [Close (boot_tty0 b)] else []) \<rparr>"
  have p2: "opened_paths (trace (?s2 m sl)) = map console_path (boot_names b)" for m sl
    using p1 by (simp add: opened_paths_append)
  from assms False o
  consider "sf = s1" | m sl where "sf = ?s2 m sl"
    | m sl s3 where "main_loop (?s2 m sl) es = Some s3" "sf = shutdown s3"
    by (auto simp: main_def Let_def split: if_splits option.splits)
  then show ?thesis
  proof cases
    case 1
    with p1 show ?thesis by simp
  next
    case 2
    with p2 show ?thesis by simp
  next
    case 3
    from main_loop_fields [OF 3(1)] obtain new
      where t: "trace s3 = trace (?s2 m sl) @ new"
        and p: "set (opened_paths new) \<subseteq> set (map name (cons (?s2 m sl)))" by auto
    have "opened_paths (trace sf) = opened_paths (trace s3)"
      using 3(2) by (simp add: shutdown_fields)
    also have "\<dots> = map console_path (boot_names b) @ opened_paths new"
      unfolding t opened_paths_append p2 ..
    finally show ?thesis using p n1 by auto
  qed
qed

lemma open_consoles_exact:
  "open_consoles names opens s = Some s' \<Longrightarrow>
   length names \<le> length opens \<and>
   cons s' = cons s @ map (\<lambda>(n, r). \<lparr> name = console_path n, fd = (if r < 0 then - 1 else r) \<rparr>)
                        (zip names opens) \<and>
   trace s' = trace s @ map (\<lambda>(n, r). OpenNb (console_path n) r) (zip names opens) \<and>
   got_signal s' = got_signal s \<and> ringbuf s' = ringbuf s \<and> inptr s' = inptr s"
proof (induction names arbitrary: opens s)
  case Nil
  then show ?case by simp
next
  case (Cons n names)
  from Cons.prems obtain r opens1 where o: "opens = r # opens1"
    by (cases opens) simp_all
  let ?fd = "if r < 0 then - 1 else r"
  let ?s1 = "s\<lparr> cons := cons s @ [\<lparr> name = console_path n, fd = ?fd \<rparr>],
                 trace := trace s @ [OpenNb (console_path n) r] \<rparr>"
  let ?s2 = "if ?fd < 0 then ?s1\<lparr> consoles_left := consoles_left ?s1 - 1 \<rparr> else ?s1"
  from Cons.prems o have "open_consoles names opens1 ?s2 = Some s'"
    by (simp add: open_nb_def Let_def split: if_splits)
  from Cons.IH [OF this] o show ?case
    by (simp split: if_splits)
qed

lemma console_write_first_attempt:
  assumes "console_write writes opens s considx rest = Some (s', writes', opens')"
    and "rest \<noteq> []"
  shows "\<exists>new. trace s' = trace s @ new \<and>
           ((\<exists>k. Write (fd (cons s ! considx)) (take k rest) \<in> set new) \<or>
            (\<exists>e. WriteFailed (fd (cons s ! considx)) e \<in> set new))"
  using assms(1)
proof (cases rule: console_write_cases)
  case finished
  with assms(2) show ?thesis by simp
next
  case (wrote i writes1)
  from console_write_trace [OF wrote(3)] obtain new
    where "trace s' = (trace s @ [Write (fd (cons s ! considx)) (take i rest)]) @ new" by auto
  then have "trace s' = trace s @ (Write (fd (cons s ! considx)) (take i rest) # new)" by simp
  then show ?thesis by (metis list.set_intros(1))
next
  case (reopened e writes1 fd' tr' opens1)
  from write_err_result [OF reopened(3)] obtain ev
    where t: "tr' = (trace s @ [WriteFailed (fd (cons s ! considx)) e]) @ ev" by auto
  from console_write_trace [OF reopened(5)] obtain new where "trace s' = tr' @ new" by auto
  with t have "trace s' = trace s @ (WriteFailed (fd (cons s ! considx)) e # ev @ new)" by simp
  then show ?thesis by (metis list.set_intros(1))
next
  case (lost e writes1 fd' tr')
  from write_err_result [OF lost(3)] obtain ev
    where t: "tr' = (trace s @ [WriteFailed (fd (cons s ! considx)) e]) @ ev" by auto
  with lost(6) have "trace s' = trace s @ (WriteFailed (fd (cons s ! considx)) e # ev)"
    by (simp split: if_splits)
  then show ?thesis by (metis list.set_intros(1))
qed

lemma fanout_loop_grows:
  "fanout_loop idxs writes opens s bs = Some (s', writes', opens') \<Longrightarrow>
   \<exists>new. trace s' = trace s @ new"
proof (induction idxs arbitrary: writes opens s)
  case Nil
  then show ?case by simp
next
  case (Cons considx idxs)
  show ?case
  proof (cases "fd (cons s ! considx) < 0")
    case True
    with Cons.prems Cons.IH [of writes opens s] show ?thesis by simp
  next
    case False
    with Cons.prems obtain s1 writes1 opens1
      where c: "console_write writes opens s considx bs = Some (s1, writes1, opens1)"
        and f: "fanout_loop idxs writes1 opens1 s1 bs = Some (s', writes', opens')"
      by (auto split: option.splits)
    from console_write_trace [OF c] obtain n1 where "trace s1 = trace s @ n1" by auto
    moreover from Cons.IH [OF f] obtain n2 where "trace s' = trace s1 @ n2" by auto
    ultimately have "trace s' = trace s @ (n1 @ n2)" by simp
    then show ?thesis ..
  qed
qed

lemma fanout_loop_first_attempt:
  "fanout_loop idxs writes opens s bs = Some (s', writes', opens') \<Longrightarrow>
   i \<in> set idxs \<Longrightarrow> 0 \<le> fd (cons s ! i) \<Longrightarrow> bs \<noteq> [] \<Longrightarrow>
   \<exists>new. trace s' = trace s @ new \<and>
         ((\<exists>k. Write (fd (cons s ! i)) (take k bs) \<in> set new) \<or>
          (\<exists>e. WriteFailed (fd (cons s ! i)) e \<in> set new))"
proof (induction idxs arbitrary: writes opens s)
  case Nil
  then show ?case by simp
next
  case (Cons considx idxs)
  show ?case
  proof (cases "considx = i")
    case True
    with Cons.prems obtain s1 writes1 opens1
      where c: "console_write writes opens s i bs = Some (s1, writes1, opens1)"
        and f: "fanout_loop idxs writes1 opens1 s1 bs = Some (s', writes', opens')"
      by (auto split: option.splits)
    from console_write_first_attempt [OF c Cons.prems(4)] obtain n1
      where t1: "trace s1 = trace s @ n1"
        and a: "(\<exists>k. Write (fd (cons s ! i)) (take k bs) \<in> set n1) \<or>
                (\<exists>e. WriteFailed (fd (cons s ! i)) e \<in> set n1)" by auto
    from fanout_loop_grows [OF f] obtain n2 where "trace s' = trace s1 @ n2" by auto
    with t1 have "trace s' = trace s @ (n1 @ n2)" by simp
    moreover from a have "(\<exists>k. Write (fd (cons s ! i)) (take k bs) \<in> set (n1 @ n2)) \<or>
                (\<exists>e. WriteFailed (fd (cons s ! i)) e \<in> set (n1 @ n2))" by auto
    ultimately show ?thesis by blast
  next
    case False
    with Cons.prems(2) have mem: "i \<in> set idxs" by simp
    show ?thesis
    proof (cases "fd (cons s ! considx) < 0")
      case True
      with Cons.prems(1) have "fanout_loop idxs writes opens s bs = Some (s', writes', opens')"
        by simp
      from Cons.IH [OF this mem Cons.prems(3,4)] show ?thesis .
    next
      case live: False
      with Cons.prems(1) obtain s1 writes1 opens1
        where c: "console_write writes opens s considx bs = Some (s1, writes1, opens1)"
          and f: "fanout_loop idxs writes1 opens1 s1 bs = Some (s', writes', opens')"
        by (auto split: option.splits)
      from console_write_cons [OF c] False have same: "cons s1 ! i = cons s ! i" by simp
      from console_write_trace [OF c] obtain n1 where t1: "trace s1 = trace s @ n1" by auto
      from Cons.IH [OF f mem] same Cons.prems(3,4) obtain n2
        where t2: "trace s' = trace s1 @ n2"
          and a: "(\<exists>k. Write (fd (cons s ! i)) (take k bs) \<in> set n2) \<or>
                  (\<exists>e. WriteFailed (fd (cons s ! i)) e \<in> set n2)" by auto
      from t1 t2 have "trace s' = trace s @ (n1 @ n2)" by simp
      moreover from a have "(\<exists>k. Write (fd (cons s ! i)) (take k bs) \<in> set (n1 @ n2)) \<or>
                  (\<exists>e. WriteFailed (fd (cons s ! i)) e \<in> set (n1 @ n2))" by auto
      ultimately show ?thesis by blast
    qed
  qed
qed


lemma iteration_first_attempt:
  assumes "iteration s e = Some s1"
    and "ev_select e = 1" and "ev_read e = Some avail" and "pty_read s avail \<noteq> []"
    and "i < length (cons s)" and "0 \<le> fd (cons s ! i)"
  shows "\<exists>new. trace s1 = trace s @ new \<and>
           ((\<exists>k. Write (fd (cons s ! i)) (take k (pty_read s avail)) \<in> set new) \<or>
            (\<exists>e. WriteFailed (fd (cons s ! i)) e \<in> set new))"
proof -
  let ?bs = "pty_read s avail"
  let ?s0 = "store s ?bs"
  from assms(1-3) obtain s2 writes' opens'
    where f: "fanout_loop [0..<length (cons ?s0)] (ev_writes e) (ev_opens e) ?s0 ?bs
                = Some (s2, writes', opens')"
      and s1: "s1 = drain (open_logfile (advance s2 (length ?bs)) e)"
    by (auto simp: iteration_def read_and_fanout_def fanout_def Let_def split: option.splits)
  have c0: "cons ?s0 = cons s" and t0: "trace ?s0 = trace s"
    by (simp_all add: advance_store_fields)
  from assms(5) c0 have mem: "i \<in> set [0..<length (cons ?s0)]" by simp
  from fanout_loop_first_attempt [OF f mem] assms(4,6) c0 t0 obtain n1
    where t1: "trace s2 = trace s @ n1"
      and a: "(\<exists>k. Write (fd (cons s ! i)) (take k ?bs) \<in> set n1) \<or>
              (\<exists>e. WriteFailed (fd (cons s ! i)) e \<in> set n1)" by auto
  from open_logfile_fields(5) [of "advance s2 (length ?bs)" e] obtain n2
    where t2: "trace (open_logfile (advance s2 (length ?bs)) e) = trace s2 @ n2"
    by (auto simp: advance_store_fields)
  from drain_fields(6) [of "open_logfile (advance s2 (length ?bs)) e"] obtain n3
    where t3: "trace s1 = trace (open_logfile (advance s2 (length ?bs)) e) @ n3"
    using s1 by auto
  from t1 t2 t3 have "trace s1 = trace s @ (n1 @ n2 @ n3)" by simp
  moreover from a have "(\<exists>k. Write (fd (cons s ! i)) (take k ?bs) \<in> set (n1 @ n2 @ n3)) \<or>
              (\<exists>e. WriteFailed (fd (cons s ! i)) e \<in> set (n1 @ n2 @ n3))" by auto
  ultimately show ?thesis by blast
qed

lemma write_err_reopened:
  "write_err tr opens p f nm e = Some (fd', tr', opens') \<Longrightarrow> 0 \<le> fd' \<Longrightarrow>
   tr' = tr @ [Close f, OpenNb nm fd']"
  by (auto simp: write_err_def open_nb_def Let_def split: if_splits list.splits)

lemma fds_opened_by_name_grow:
  "fds_opened_by_name s \<Longrightarrow> cons s' = cons s \<Longrightarrow> trace s' = trace s @ new \<Longrightarrow>
   fds_opened_by_name s'"
  by (auto simp: fds_opened_by_name_def)

lemma fds_opened_by_name_update:
  assumes "fds_opened_by_name s"
    and "cons s' = (cons s)[i := (cons s ! i)\<lparr> fd := f \<rparr>]"
    and "trace s' = trace s @ new"
    and "0 \<le> f \<longrightarrow> OpenNb (name (cons s ! i)) f \<in> set new"
  shows "fds_opened_by_name s'"
proof -
  have "OpenNb (name c) (fd c) \<in> set (trace s')" if c: "c \<in> set (cons s')" and p: "0 \<le> fd c" for c
  proof -
    from c assms(2) have "c = (cons s ! i)\<lparr> fd := f \<rparr> \<or> c \<in> set (cons s)"
      using set_update_subset_insert [of "cons s" i "(cons s ! i)\<lparr> fd := f \<rparr>"] by auto
    then show ?thesis
    proof
      assume "c = (cons s ! i)\<lparr> fd := f \<rparr>"
      with p assms(3,4) show ?thesis by simp
    next
      assume "c \<in> set (cons s)"
      with p assms(1,3) show ?thesis by (auto simp: fds_opened_by_name_def)
    qed
  qed
  then show ?thesis by (simp add: fds_opened_by_name_def)
qed

lemma console_write_named:
  "console_write writes opens s considx rest = Some (s', writes', opens') \<Longrightarrow>
   fds_opened_by_name s \<Longrightarrow> fds_opened_by_name s'"
proof (induction writes arbitrary: s opens rest)
  case Nil
  from Nil.prems(1) show ?case using Nil.prems(2) by (cases rule: console_write_cases) simp_all
next
  case (Cons w writes)
  from Cons.prems(1) show ?case
  proof (cases rule: console_write_cases)
    case finished
    with Cons.prems(2) show ?thesis by simp
  next
    case (wrote i writes1)
    then have "writes1 = writes" by simp
    note run = wrote(3) [unfolded this]
    have "fds_opened_by_name (s\<lparr> trace := trace s @ [Write (fd (cons s ! considx)) (take i rest)] \<rparr>)"
      using Cons.prems(2)
      by (rule fds_opened_by_name_grow [where new = "[Write (fd (cons s ! considx)) (take i rest)]"])
        simp_all
    from Cons.IH [OF run this] show ?thesis .
  next
    case (reopened e writes1 fd' tr' opens1)
    then have "writes1 = writes" by simp
    note run = reopened(5) [unfolded this]
    from write_err_reopened [OF reopened(3,4)]
    have t: "tr' = trace s @ [WriteFailed (fd (cons s ! considx)) e, Close (fd (cons s ! considx)),
                              OpenNb (name (cons s ! considx)) fd']" by simp
    have "fds_opened_by_name
            (s\<lparr> trace := tr', cons := (cons s)[considx := (cons s ! considx)\<lparr> fd := fd' \<rparr>] \<rparr>)"
      using Cons.prems(2)
      by (rule fds_opened_by_name_update [where i = considx and f = fd'
            and new = "[WriteFailed (fd (cons s ! considx)) e, Close (fd (cons s ! considx)),
                        OpenNb (name (cons s ! considx)) fd']"]) (simp_all add: t)
    from Cons.IH [OF run this] show ?thesis .
  next
    case (lost e writes1 fd' tr')
    from write_err_result [OF lost(3)] obtain ev
      where t: "tr' = trace s @ (WriteFailed (fd (cons s ! considx)) e # ev)" by auto
    show ?thesis
      using Cons.prems(2)
      by (rule fds_opened_by_name_update [where i = considx and f = fd'
            and new = "WriteFailed (fd (cons s ! considx)) e # ev"])
        (use lost(4,6) t in \<open>simp_all split: if_splits\<close>)
  qed
qed

lemma fanout_loop_named:
  "fanout_loop idxs writes opens s bs = Some (s', writes', opens') \<Longrightarrow>
   fds_opened_by_name s \<Longrightarrow> fds_opened_by_name s'"
proof (induction idxs arbitrary: writes opens s)
  case Nil
  then show ?case by simp
next
  case (Cons considx idxs)
  show ?case
  proof (cases "fd (cons s ! considx) < 0")
    case True
    with Cons.prems Cons.IH [of writes opens s] show ?thesis by simp
  next
    case False
    with Cons.prems(1) obtain s1 writes1 opens1
      where c: "console_write writes opens s considx bs = Some (s1, writes1, opens1)"
        and f: "fanout_loop idxs writes1 opens1 s1 bs = Some (s', writes', opens')"
      by (auto split: option.splits)
    from Cons.IH [OF f console_write_named [OF c Cons.prems(2)]] show ?thesis .
  qed
qed

lemma iteration_named:
  assumes "iteration s e = Some s1" and "fds_opened_by_name s"
  shows "fds_opened_by_name s1"
proof -
  from assms(1) obtain s2 where r: "read_and_fanout s e = Some s2"
    and s1: "s1 = drain (open_logfile s2 e)"
    by (auto simp: iteration_def split: option.splits)
  have k2: "fds_opened_by_name s2"
  proof (cases "ev_select e = 1 \<and> ev_read e \<noteq> None")
    case False
    with r have "s2 = s" by (auto simp: read_and_fanout_def split: if_splits option.splits)
    with assms(2) show ?thesis by simp
  next
    case True
    then obtain avail where a: "ev_read e = Some avail" and sel: "ev_select e = 1" by auto
    let ?bs = "pty_read s avail"
    from r a sel obtain s3 writes' opens'
      where f: "fanout_loop [0..<length (cons (store s ?bs))] (ev_writes e) (ev_opens e)
                  (store s ?bs) ?bs = Some (s3, writes', opens')"
        and s2: "s2 = advance s3 (length ?bs)"
      by (auto simp: read_and_fanout_def fanout_def Let_def split: option.splits)
    have "fds_opened_by_name (store s ?bs)"
      using assms(2) by (rule fds_opened_by_name_grow [where new = "[]"])
        (simp_all add: advance_store_fields)
    from fanout_loop_named [OF f this] have "fds_opened_by_name s3" .
    then show ?thesis unfolding s2
      by (rule fds_opened_by_name_grow [where new = "[]"]) (simp_all add: advance_store_fields)
  qed
  from open_logfile_fields(5) [of s2 e] obtain n2
    where t2: "trace (open_logfile s2 e) = trace s2 @ n2" by auto
  from k2 have k3: "fds_opened_by_name (open_logfile s2 e)"
    by (rule fds_opened_by_name_grow [where new = n2]) (simp_all add: open_logfile_fields t2)
  from drain_fields(6) [of "open_logfile s2 e"] obtain n3
    where t3: "trace (drain (open_logfile s2 e)) = trace (open_logfile s2 e) @ n3" by auto
  from k3 show ?thesis unfolding s1
    by (rule fds_opened_by_name_grow [where new = n3]) (simp_all add: drain_fields t3)
qed

lemma open_consoles_named:
  assumes "open_consoles names opens s = Some s'" and "fds_opened_by_name s"
  shows "fds_opened_by_name s'"
proof -
  note x = open_consoles_exact [OF assms(1)]
  have "OpenNb (name c) (fd c) \<in> set (trace s')" if c: "c \<in> set (cons s')" and p: "0 \<le> fd c" for c
  proof (cases "c \<in> set (cons s)")
    case True
    with p assms(2) x show ?thesis by (auto simp: fds_opened_by_name_def)
  next
    case False
    with c x obtain n r where z: "(n, r) \<in> set (zip names opens)"
      and cc: "c = \<lparr> name = console_path n, fd = (if r < 0 then - 1 else r) \<rparr>" by auto
    from cc p have "name c = console_path n" "fd c = r" by (simp_all split: if_splits)
    with z x show ?thesis by force
  qed
  then show ?thesis by (simp add: fds_opened_by_name_def)
qed


lemma main_loop_named:
  "main_loop s es = Some s' \<Longrightarrow> fds_opened_by_name s \<Longrightarrow> fds_opened_by_name s'"
proof (induction es arbitrary: s)
  case Nil
  then show ?case by (simp split: if_splits)
next
  case (Cons e es)
  show ?case
  proof (cases "got_signal s \<noteq> 0")
    case True
    with Cons.prems show ?thesis by simp
  next
    case False
    with Cons.prems(1) obtain s1 where i: "iteration s e = Some s1"
      and m: "main_loop (deliver (ev_signal e) s1) es = Some s'"
      by (auto split: option.splits)
    from iteration_named [OF i Cons.prems(2)]
    have "fds_opened_by_name (deliver (ev_signal e) s1)"
      by (rule fds_opened_by_name_grow [where new = "[]"]) (simp_all add: deliver_fields)
    from Cons.IH [OF m this] show ?thesis .
  qed
qed

lemma shutdown_grows: "\<exists>cl. trace (shutdown s) = trace s @ cl"
  by (simp add: shutdown_def Let_def)

lemma main_first_write:
  assumes m: "main sz lowbyte opts b (e # es) = Some (0, sf)"
    and i: "i < length (boot_names b)" and r: "0 \<le> boot_opens b ! i"
    and sel: "ev_select e = 1" and rd: "ev_read e = Some avail" and ne: "take sz avail \<noteq> []"
  shows "\<exists>pre post. trace sf = pre @ post \<and>
           OpenNb (console_path (boot_names b ! i)) (boot_opens b ! i) \<in> set pre \<and>
           ((\<exists>k. Write (boot_opens b ! i) (take k (take sz avail)) \<in> set post) \<or>
            (\<exists>er. WriteFailed (boot_opens b ! i) er \<in> set post))"
proof -
  let ?names = "boot_names b" and ?opens = "boot_opens b"
  let ?s0 = "(init_state sz lowbyte opts)\<lparr> consoles_left := int (length ?names) \<rparr>"
  from m obtain s1 pm sl s3 where
    o: "open_consoles ?names ?opens ?s0 = Some s1"
    and l: "main_loop (s1\<lparr> ptm := pm, pts := sl,
        trace := trace s1 @ OpenRdwr ''/dev/tty0'' (boot_tty0 b) #
          (if boot_tty0 b \<ge> 0 then [Close (boot_tty0 b)] else []) \<rparr>) (e # es) = Some s3"
    and f: "sf = shutdown s3"
    by (rule main_exit_0)
  let ?extra = "OpenRdwr ''/dev/tty0'' (boot_tty0 b) #
          (if boot_tty0 b \<ge> 0 then [Close (boot_tty0 b)] else [])"
  let ?s2 = "s1\<lparr> ptm := pm, pts := sl, trace := trace s1 @ ?extra \<rparr>"
  note x = open_consoles_exact [OF o]
  from x i have iz: "i < length (zip ?names ?opens)" by simp
  from x have c1: "cons s1 = map (\<lambda>(n, r). \<lparr> name = console_path n, fd = (if r < 0 then - 1 else r) \<rparr>)
                        (zip ?names ?opens)"
    and t1: "trace s1 = map (\<lambda>(n, r). OpenNb (console_path n) r) (zip ?names ?opens)"
    and g1: "got_signal s1 = 0" and b1: "ringbuf s1 = replicate sz 0" and i1: "inptr s1 = 0"
    by (simp_all add: init_state_def)
  from c1 iz r have ci: "fd (cons s1 ! i) = ?opens ! i" by simp
  from t1 iz have "trace s1 ! i = OpenNb (console_path (?names ! i)) (?opens ! i)" by simp
  moreover from t1 iz have "i < length (trace s1)" by simp
  ultimately have opened: "OpenNb (console_path (?names ! i)) (?opens ! i) \<in> set (trace s1)"
    by (metis nth_mem)
  from l g1 obtain s3' where it: "iteration ?s2 e = Some s3'"
    and rest: "main_loop (deliver (ev_signal e) s3') es = Some s3"
    by (auto split: option.splits)
  have pr: "pty_read ?s2 avail = take sz avail"
    by (simp add: pty_read_def endptr_def b1 i1)
  from c1 iz have il: "i < length (cons ?s2)" by simp
  from iteration_first_attempt [OF it sel rd _ il] pr ne ci r obtain n1
    where tn: "trace s3' = trace ?s2 @ n1"
      and a: "(\<exists>k. Write (?opens ! i) (take k (take sz avail)) \<in> set n1) \<or>
              (\<exists>er. WriteFailed (?opens ! i) er \<in> set n1)" by auto
  from main_loop_fields [OF rest] obtain n2 where t2: "trace s3 = trace s3' @ n2"
    by (auto simp: deliver_fields)
  from shutdown_grows [of s3] f obtain cl where t3: "trace sf = trace s3 @ cl" by auto
  from tn t2 t3 have "trace sf = trace s1 @ (?extra @ n1 @ n2 @ cl)" by simp
  moreover from a have "(\<exists>k. Write (?opens ! i) (take k (take sz avail)) \<in> set (?extra @ n1 @ n2 @ cl)) \<or>
              (\<exists>er. WriteFailed (?opens ! i) er \<in> set (?extra @ n1 @ n2 @ cl))" by auto
  ultimately show ?thesis using opened by blast
qed


lemma main_named:
  assumes "main sz lowbyte opts b es = Some (code, sf)"
  shows "map name (cons sf) = map console_path (boot_names b) \<and> fds_opened_by_name sf"
proof (cases "boot_names b = []")
  case True
  with assms have "sf = init_state sz lowbyte opts" by (simp add: main_def Let_def)
  with True show ?thesis by (simp add: init_state_fields fds_opened_by_name_def)
next
  case False
  let ?s0 = "(init_state sz lowbyte opts)\<lparr> consoles_left := int (length (boot_names b)) \<rparr>"
  from assms False obtain s1
    where o: "open_consoles (boot_names b) (boot_opens b) ?s0 = Some s1"
    by (auto simp: main_def Let_def split: option.splits)
  from open_consoles_result [OF o]
  have n1: "map name (cons s1) = map console_path (boot_names b)"
    by (simp add: init_state_fields)
  have "fds_opened_by_name ?s0" by (simp add: fds_opened_by_name_def init_state_fields)
  from open_consoles_named [OF o this] have k1: "fds_opened_by_name s1" .
  let ?extra = "OpenRdwr ''/dev/tty0'' (boot_tty0 b) #
          (if boot_tty0 b \<ge> 0 then [Close (boot_tty0 b)] else [])"
  let ?s2 = "\<lambda>m sl. s1\<lparr> ptm := m, pts := sl, trace := trace s1 @ ?extra \<rparr>"
  have k2: "fds_opened_by_name (?s2 m sl)" for m sl
    using k1 by (rule fds_opened_by_name_grow [where new = ?extra]) simp_all
  have n2: "map name (cons (?s2 m sl)) = map console_path (boot_names b)" for m sl
    using n1 by simp
  from assms False o
  consider "sf = s1" | m sl where "sf = ?s2 m sl"
    | m sl s3 where "main_loop (?s2 m sl) es = Some s3" "sf = shutdown s3"
    by (auto simp: main_def Let_def split: if_splits option.splits)
  then show ?thesis
  proof cases
    case 1
    with n1 k1 show ?thesis by simp
  next
    case 2
    with n2 k2 show ?thesis by simp
  next
    case 3
    from main_loop_fields [OF 3(1)] n2 have n3: "map name (cons s3) = map console_path (boot_names b)"
      by simp
    from main_loop_named [OF 3(1) k2] have k3: "fds_opened_by_name s3" .
    have c: "cons (shutdown s3) = cons s3" by (simp add: shutdown_def Let_def)
    from shutdown_grows [of s3] obtain cl where t: "trace (shutdown s3) = trace s3 @ cl" by auto
    from k3 c t have "fds_opened_by_name (shutdown s3)" by (rule fds_opened_by_name_grow)
    with n3 c 3(2) show ?thesis by simp
  qed
qed

text \<open>
  C10. The path \<open>/dev/tty0\<close> becomes \<open>/dev/tty1\<close> and \<open>/dev/vc/0\<close> becomes
  \<open>/dev/vc/1\<close>. The startup opens the rewritten path of each name found, in order,
  and the console keeps that path and the descriptor that the open returned. In any run of
  \<open>main\<close> every path given to \<open>open_nb\<close>, at startup or after a hang-up, is a
  rewritten name, so never \<open>/dev/tty0\<close> nor \<open>/dev/vc/0\<close>, and every open
  console holds a descriptor that \<open>open_nb\<close> returned for its rewritten name; a turn
  of the loop keeps this. In a turn that reads a span which is not empty, the first
  \<open>write\<close> for each open console is called on the descriptor of that console. So
  in a run where console \<open>j\<close> was found (as \<open>/dev/tty0\<close>, say) and its open
  succeeded, the trace has the open of the rewritten path (\<open>/dev/tty1\<close>) and,
  after it, a \<open>write\<close> of the first span on the descriptor which that open
  returned.
\<close>

theorem tty0_replaced_by_tty1:
  "console_path ''/dev/tty0'' = ''/dev/tty1'' \<and> console_path ''/dev/vc/0'' = ''/dev/vc/1'' \<and>
   (open_consoles names opens s = Some s' \<longrightarrow>
      map name (cons s') = map name (cons s) @ map console_path names \<and>
      opened_paths (trace s') = opened_paths (trace s) @ map console_path names \<and>
      cons s' = cons s @ map (\<lambda>(n, r). \<lparr> name = console_path n, fd = (if r < 0 then - 1 else r) \<rparr>)
                           (zip names opens) \<and>
      trace s' = trace s @ map (\<lambda>(n, r). OpenNb (console_path n) r) (zip names opens)) \<and>
   (main sz lowbyte opts b es = Some (code, sf) \<longrightarrow>
      set (opened_paths (trace sf)) \<subseteq> console_path ` set (boot_names b) \<and>
      ''/dev/tty0'' \<notin> set (opened_paths (trace sf)) \<and>
      ''/dev/vc/0'' \<notin> set (opened_paths (trace sf)) \<and>
      map name (cons sf) = map console_path (boot_names b) \<and>
      fds_opened_by_name sf) \<and>
   (fds_opened_by_name s \<longrightarrow> iteration s e = Some s1 \<longrightarrow> fds_opened_by_name s1) \<and>
   (iteration s e = Some s1 \<longrightarrow> ev_select e = 1 \<longrightarrow> ev_read e = Some avail \<longrightarrow>
    pty_read s avail \<noteq> [] \<longrightarrow> i < length (cons s) \<longrightarrow> 0 \<le> fd (cons s ! i) \<longrightarrow>
      (\<exists>new. trace s1 = trace s @ new \<and>
         ((\<exists>k. Write (fd (cons s ! i)) (take k (pty_read s avail)) \<in> set new) \<or>
          (\<exists>er. WriteFailed (fd (cons s ! i)) er \<in> set new)))) \<and>
   (main sz lowbyte opts b (ev # evs) = Some (0, sf') \<longrightarrow> j < length (boot_names b) \<longrightarrow>
    0 \<le> boot_opens b ! j \<longrightarrow> ev_select ev = 1 \<longrightarrow> ev_read ev = Some av \<longrightarrow>
    take sz av \<noteq> [] \<longrightarrow>
      (\<exists>pre post. trace sf' = pre @ post \<and>
         OpenNb (console_path (boot_names b ! j)) (boot_opens b ! j) \<in> set pre \<and>
         ((\<exists>k. Write (boot_opens b ! j) (take k (take sz av)) \<in> set post) \<or>
          (\<exists>er. WriteFailed (boot_opens b ! j) er \<in> set post))))"
proof -
  have a: "console_path ''/dev/tty0'' = ''/dev/tty1''" "console_path ''/dev/vc/0'' = ''/dev/vc/1''"
    by (simp_all add: console_path_def)
  have b: "map name (cons s') = map name (cons s) @ map console_path names \<and>
      opened_paths (trace s') = opened_paths (trace s) @ map console_path names \<and>
      cons s' = cons s @ map (\<lambda>(n, r). \<lparr> name = console_path n, fd = (if r < 0 then - 1 else r) \<rparr>)
                           (zip names opens) \<and>
      trace s' = trace s @ map (\<lambda>(n, r). OpenNb (console_path n) r) (zip names opens)"
    if "open_consoles names opens s = Some s'"
    using open_consoles_result [OF that] open_consoles_exact [OF that] by simp
  have c: "set (opened_paths (trace sf)) \<subseteq> console_path ` set (boot_names b) \<and>
      ''/dev/tty0'' \<notin> set (opened_paths (trace sf)) \<and>
      ''/dev/vc/0'' \<notin> set (opened_paths (trace sf)) \<and>
      map name (cons sf) = map console_path (boot_names b) \<and>
      fds_opened_by_name sf"
    if "main sz lowbyte opts b es = Some (code, sf)"
  proof -
    from main_opened_paths [OF that]
    have sub: "set (opened_paths (trace sf)) \<subseteq> console_path ` set (boot_names b)" .
    moreover have "x \<notin> console_path ` set (boot_names b)"
      if "x = ''/dev/tty0'' \<or> x = ''/dev/vc/0''" for x
      using that console_path_not_zero by (metis imageE)
    ultimately show ?thesis using main_named [OF that] by blast
  qed
  have d: "fds_opened_by_name s1" if "fds_opened_by_name s" "iteration s e = Some s1"
    using that(2,1) by (rule iteration_named)
  have f: "\<exists>new. trace s1 = trace s @ new \<and>
         ((\<exists>k. Write (fd (cons s ! i)) (take k (pty_read s avail)) \<in> set new) \<or>
          (\<exists>er. WriteFailed (fd (cons s ! i)) er \<in> set new))"
    if "iteration s e = Some s1" "ev_select e = 1" "ev_read e = Some avail"
      "pty_read s avail \<noteq> []" "i < length (cons s)" "0 \<le> fd (cons s ! i)"
    using that by (rule iteration_first_attempt)
  have g: "\<exists>pre post. trace sf' = pre @ post \<and>
         OpenNb (console_path (boot_names b ! j)) (boot_opens b ! j) \<in> set pre \<and>
         ((\<exists>k. Write (boot_opens b ! j) (take k (take sz av)) \<in> set post) \<or>
          (\<exists>er. WriteFailed (boot_opens b ! j) er \<in> set post))"
    if "main sz lowbyte opts b (ev # evs) = Some (0, sf')" "j < length (boot_names b)"
      "0 \<le> boot_opens b ! j" "ev_select ev = 1" "ev_read ev = Some av" "take sz av \<noteq> []"
    using that by (rule main_first_write)
  have B: "open_consoles names opens s = Some s' \<longrightarrow>
      map name (cons s') = map name (cons s) @ map console_path names \<and>
      opened_paths (trace s') = opened_paths (trace s) @ map console_path names \<and>
      cons s' = cons s @ map (\<lambda>(n, r). \<lparr> name = console_path n, fd = (if r < 0 then - 1 else r) \<rparr>)
                           (zip names opens) \<and>
      trace s' = trace s @ map (\<lambda>(n, r). OpenNb (console_path n) r) (zip names opens)"
    by (rule impI) (rule b)
  have C: "main sz lowbyte opts b es = Some (code, sf) \<longrightarrow>
      set (opened_paths (trace sf)) \<subseteq> console_path ` set (boot_names b) \<and>
      ''/dev/tty0'' \<notin> set (opened_paths (trace sf)) \<and>
      ''/dev/vc/0'' \<notin> set (opened_paths (trace sf)) \<and>
      map name (cons sf) = map console_path (boot_names b) \<and>
      fds_opened_by_name sf"
    by (rule impI) (rule c)
  have D: "fds_opened_by_name s \<longrightarrow> iteration s e = Some s1 \<longrightarrow> fds_opened_by_name s1"
    by (intro impI) (rule d)
  have F: "iteration s e = Some s1 \<longrightarrow> ev_select e = 1 \<longrightarrow> ev_read e = Some avail \<longrightarrow>
    pty_read s avail \<noteq> [] \<longrightarrow> i < length (cons s) \<longrightarrow> 0 \<le> fd (cons s ! i) \<longrightarrow>
      (\<exists>new. trace s1 = trace s @ new \<and>
         ((\<exists>k. Write (fd (cons s ! i)) (take k (pty_read s avail)) \<in> set new) \<or>
          (\<exists>er. WriteFailed (fd (cons s ! i)) er \<in> set new)))"
    by (intro impI) (rule f)
  have G: "main sz lowbyte opts b (ev # evs) = Some (0, sf') \<longrightarrow> j < length (boot_names b) \<longrightarrow>
    0 \<le> boot_opens b ! j \<longrightarrow> ev_select ev = 1 \<longrightarrow> ev_read ev = Some av \<longrightarrow>
    take sz av \<noteq> [] \<longrightarrow>
      (\<exists>pre post. trace sf' = pre @ post \<and>
         OpenNb (console_path (boot_names b ! j)) (boot_opens b ! j) \<in> set pre \<and>
         ((\<exists>k. Write (boot_opens b ! j) (take k (take sz av)) \<in> set post) \<or>
          (\<exists>er. WriteFailed (boot_opens b ! j) er \<in> set post)))"
    by (intro impI) (rule g)
  show ?thesis
    by (rule conjI [OF a(1) conjI [OF a(2) conjI [OF B conjI [OF C conjI [OF D conjI [OF F G]]]]]])
qed

text \<open>
  C7. \<open>didnl\<close> is changed neither by \<open>writelog\<close> nor by a turn of the loop nor
  by the loop as a whole, so the shutdown appends a newline exactly when the log file is
  open and the initial \<open>didnl\<close> is 0; a run of \<open>main\<close>, where \<open>didnl\<close>
  starts at 1, ends with the log file as the loop left it.
\<close>

theorem didnl_never_updated:
  "didnl (writelog s ptr len) = didnl s \<and>
   (iteration s e = Some s1 \<longrightarrow> didnl s1 = didnl s) \<and>
   (main_loop s es = Some s' \<longrightarrow>
      didnl s' = didnl s \<and>
      logfile (shutdown s') = logfile s' @ (if fp s' \<and> didnl s = 0 then [Data 10] else [])) \<and>
   (main sz lowbyte opts b evs = Some (0, sf) \<longrightarrow>
      (\<exists>s3. sf = shutdown s3 \<and> didnl s3 = 1 \<and> logfile sf = logfile s3))"
proof -
  have a: "didnl s1 = didnl s" if "iteration s e = Some s1"
    using that by (rule iteration_fields(1))
  have b: "didnl s' = didnl s \<and>
      logfile (shutdown s') = logfile s' @ (if fp s' \<and> didnl s = 0 then [Data 10] else [])"
    if "main_loop s es = Some s'"
    using main_loop_fields [OF that] by (simp add: shutdown_fields)
  have c: "\<exists>s3. sf = shutdown s3 \<and> didnl s3 = 1 \<and> logfile sf = logfile s3"
    if "main sz lowbyte opts b evs = Some (0, sf)"
  proof -
    from that obtain s1 m sl s3 where
      o: "open_consoles (boot_names b) (boot_opens b)
       ((init_state sz lowbyte opts)\<lparr> consoles_left := int (length (boot_names b)) \<rparr>) = Some s1"
      and l: "main_loop (s1\<lparr> ptm := m, pts := sl,
        trace := trace s1 @ OpenRdwr ''/dev/tty0'' (boot_tty0 b) #
          (if boot_tty0 b \<ge> 0 then [Close (boot_tty0 b)] else []) \<rparr>) evs = Some s3"
      and f: "sf = shutdown s3"
      by (rule main_exit_0)
    from open_consoles_result [OF o] have "didnl s1 = 1" by (simp add: init_state_fields)
    with main_loop_fields [OF l] have "didnl s3 = 1" by simp
    with f show ?thesis by (auto simp: shutdown_fields)
  qed
  from a b c show ?thesis by (simp add: writelog_fields)
qed


lemma example_run:
  "\<exists>sf. main 8 0 default_options example_boot [last_event] = Some (0, sf) \<and>
        logfile sf = [Stamp 0, Data 104, Data 105] \<and>
        map name (cons sf) = [''/dev/tty1'', ''/dev/vc/1'', ''/dev/ttyS0''] \<and>
        trace sf =
          [OpenNb ''/dev/tty1'' 3, OpenNb ''/dev/vc/1'' (- 1), OpenNb ''/dev/ttyS0'' 4,
           OpenRdwr ''/dev/tty0'' 5, Close 5,
           Write 3 [104, 105], Write 4 [104], Write 4 [105],
           Fopen ''/run/log/stage-1.log'' True, Fflush, Fclose,
           Close 7, Close 6, Close 3, Close (- 1), Close 4]"
  by (simp add: main_def example_boot_def last_event_def console_path_def open_nb_def
      iteration_def read_and_fanout_def fanout_def console_write.simps write_err_def
      EIO_def pty_read_def store_def advance_def endptr_def open_logfile_def drain_def todo_def
      writelog_def writelog_byte_def esc_step_def logger_init_def deliver_def handler_def
      shutdown_def init_state_def default_options_def Let_def upt_rec)

theorem didnl_never_updated_witness:
  "\<exists>sf. main 8 0 default_options example_boot [last_event] = Some (0, sf) \<and>
        logfile sf = [Stamp 0, Data 104, Data 105] \<and>
        (\<exists>s3. sf = shutdown s3 \<and> didnl s3 = 1 \<and> logfile sf = logfile s3)"
proof -
  from example_run obtain sf where r:
    "main 8 0 default_options example_boot [last_event] = Some (0, sf) \<and>
     logfile sf = [Stamp 0, Data 104, Data 105] \<and>
     map name (cons sf) = [''/dev/tty1'', ''/dev/vc/1'', ''/dev/ttyS0''] \<and>
     trace sf =
          [OpenNb ''/dev/tty1'' 3, OpenNb ''/dev/vc/1'' (- 1), OpenNb ''/dev/ttyS0'' 4,
           OpenRdwr ''/dev/tty0'' 5, Close 5,
           Write 3 [104, 105], Write 4 [104], Write 4 [105],
           Fopen ''/run/log/stage-1.log'' True, Fflush, Fclose,
           Close 7, Close 6, Close 3, Close (- 1), Close 4]" ..
  note m = r [THEN conjunct1] and l = r [THEN conjunct2, THEN conjunct1]
  note th = didnl_never_updated [where sz = 8 and lowbyte = 0 and opts = default_options
      and b = example_boot and evs = "[last_event]" and sf = sf]
  from th [THEN conjunct2, THEN conjunct2, THEN conjunct2, THEN mp, OF m]
  have e: "\<exists>s3. sf = shutdown s3 \<and> didnl s3 = 1 \<and> logfile sf = logfile s3" .
  show ?thesis
    by (rule exI [of _ sf]) (intro conjI m l e)
qed

theorem tty0_replaced_by_tty1_witness:
  "\<exists>sf. main 8 0 default_options example_boot [last_event] = Some (0, sf) \<and>
        map name (cons sf) = [''/dev/tty1'', ''/dev/vc/1'', ''/dev/ttyS0''] \<and>
        trace sf =
          [OpenNb ''/dev/tty1'' 3, OpenNb ''/dev/vc/1'' (- 1), OpenNb ''/dev/ttyS0'' 4,
           OpenRdwr ''/dev/tty0'' 5, Close 5,
           Write 3 [104, 105], Write 4 [104], Write 4 [105],
           Fopen ''/run/log/stage-1.log'' True, Fflush, Fclose,
           Close 7, Close 6, Close 3, Close (- 1), Close 4] \<and>
        ''/dev/tty0'' \<notin> set (opened_paths (trace sf)) \<and>
        ''/dev/vc/0'' \<notin> set (opened_paths (trace sf)) \<and>
        fds_opened_by_name sf \<and>
        (\<exists>pre post. trace sf = pre @ post \<and> OpenNb ''/dev/tty1'' 3 \<in> set pre \<and>
           ((\<exists>k. Write 3 (take k [104, 105]) \<in> set post) \<or>
            (\<exists>er. WriteFailed 3 er \<in> set post)))"
proof -
  from example_run obtain sf where r:
    "main 8 0 default_options example_boot [last_event] = Some (0, sf) \<and>
     logfile sf = [Stamp 0, Data 104, Data 105] \<and>
     map name (cons sf) = [''/dev/tty1'', ''/dev/vc/1'', ''/dev/ttyS0''] \<and>
     trace sf =
          [OpenNb ''/dev/tty1'' 3, OpenNb ''/dev/vc/1'' (- 1), OpenNb ''/dev/ttyS0'' 4,
           OpenRdwr ''/dev/tty0'' 5, Close 5,
           Write 3 [104, 105], Write 4 [104], Write 4 [105],
           Fopen ''/run/log/stage-1.log'' True, Fflush, Fclose,
           Close 7, Close 6, Close 3, Close (- 1), Close 4]" ..
  note m = r [THEN conjunct1]
    and n = r [THEN conjunct2, THEN conjunct2, THEN conjunct1]
    and t = r [THEN conjunct2, THEN conjunct2, THEN conjunct2]
  note th = tty0_replaced_by_tty1 [where sz = 8 and lowbyte = 0 and opts = default_options
      and b = example_boot and es = "[last_event]" and code = 0 and sf = sf
      and ev = last_event and evs = "[]" and sf' = sf and j = 0 and av = "[104, 105]"]
  note c = th [THEN conjunct2, THEN conjunct2, THEN conjunct2, THEN conjunct1, THEN mp, OF m]
  note g0 = th [THEN conjunct2, THEN conjunct2, THEN conjunct2, THEN conjunct2, THEN conjunct2,
      THEN conjunct2, THEN mp, OF m]
  have p: "0 < length (boot_names example_boot)" "0 \<le> boot_opens example_boot ! 0"
    "ev_select last_event = 1" "ev_read last_event = Some [104, 105]"
    "take 8 [104, 105 :: byte] \<noteq> []"
    by (simp_all add: example_boot_def last_event_def)
  note g1 = g0 [THEN mp, OF p(1), THEN mp, OF p(2), THEN mp, OF p(3), THEN mp, OF p(4),
      THEN mp, OF p(5)]
  have v: "console_path (boot_names example_boot ! 0) = ''/dev/tty1''"
    "boot_opens example_boot ! 0 = 3" "take 8 [104, 105 :: byte] = [104, 105]"
    by (simp_all add: example_boot_def console_path_def)
  note g = g1 [unfolded v]
  show ?thesis
    by (rule exI [of _ sf])
      (intro conjI m n t c [THEN conjunct2, THEN conjunct1]
        c [THEN conjunct2, THEN conjunct2, THEN conjunct1]
        c [THEN conjunct2, THEN conjunct2, THEN conjunct2, THEN conjunct2] g)
qed


section \<open>A drain at the start of the arena\<close>

lemma writelog_loop_plain:
  "\<not> first_run L \<Longrightarrow> inside_esc L = 0 \<Longrightarrow> prev \<noteq> 10 \<Longrightarrow>
   writelog_loop L prev (replicate n 65) = (L, replicate n (Data 65))"
proof (induction n arbitrary: prev)
  case 0
  show ?case by simp
next
  case (Suc n)
  have b: "writelog_byte L prev 65 = (L, [Data 65])"
    using Suc.prems by (cases L) (simp add: writelog_byte_def esc_step_def)
  have "writelog_loop L 65 (replicate n 65) = (L, replicate n (Data 65))"
    using Suc.prems by (intro Suc.IH) simp_all
  with b show ?case by simp
qed

lemma writelog_loop_first:
  "writelog_loop logger_init prev (replicate (Suc n) 65) =
     (\<lparr> first_run = False, inside_esc = 0, ticks = 1 \<rparr>, Stamp 0 # replicate (Suc n) (Data 65))"
proof -
  have b: "writelog_byte logger_init prev 65 =
           (\<lparr> first_run = False, inside_esc = 0, ticks = 1 \<rparr>, [Stamp 0, Data 65])"
    by (simp add: writelog_byte_def esc_step_def logger_init_def)
  have "writelog_loop \<lparr> first_run = False, inside_esc = 0, ticks = 1 \<rparr> 65 (replicate n 65) =
        (\<lparr> first_run = False, inside_esc = 0, ticks = 1 \<rparr>, replicate n (Data 65))"
    by (rule writelog_loop_plain) simp_all
  with b show ?thesis by simp
qed

lemma turn_1:
  "iteration (wrap_state (n + 2) lowbyte) (read_event (replicate (Suc n) 65) 0) =
     Some (wrap_1 n lowbyte)"
  by (simp add: iteration_def read_and_fanout_def fanout_def console_write.simps
      pty_read_def store_def advance_def endptr_def open_logfile_def drain_def todo_def
      writelog_def writelog_loop_first wrap_state_def wrap_1_def read_event_def
      init_state_def default_options_def Let_def del: replicate.simps) simp


lemma turn_2:
  "iteration (wrap_1 n lowbyte) (read_event [10] 0) = Some (wrap_2 n lowbyte)"
  by (simp add: iteration_def read_and_fanout_def fanout_def console_write.simps
      pty_read_def store_def advance_def endptr_def open_logfile_def drain_def todo_def
      writelog_def writelog_byte_def esc_step_def wrap_state_def wrap_1_def wrap_2_def
      read_event_def init_state_def default_options_def Let_def nth_append
      del: replicate.simps)
    (simp add: writelog_byte_def esc_step_def)

lemma turn_3:
  "iteration (wrap_2 n lowbyte) (read_event [66] 15) = Some (wrap_3 n lowbyte)"
  by (simp add: iteration_def read_and_fanout_def fanout_def console_write.simps
      pty_read_def store_def advance_def endptr_def open_logfile_def drain_def todo_def
      writelog_def writelog_byte_def esc_step_def wrap_state_def wrap_2_def wrap_3_def
      read_event_def init_state_def default_options_def Let_def)

lemma main_loop_step:
  "got_signal s = 0 \<Longrightarrow> iteration s e = Some s1 \<Longrightarrow>
   main_loop s (e # es) = main_loop (deliver (ev_signal e) s1) es"
  by simp

lemma wrap_run:
  "main_loop (wrap_state (n + 2) lowbyte)
     [read_event (replicate (Suc n) 65) 0, read_event [10] 0, read_event [66] 15] =
   Some ((wrap_3 n lowbyte)\<lparr> got_signal := 15 \<rparr>)"
proof -
  have g: "got_signal (wrap_state (n + 2) lowbyte) = 0" "got_signal (wrap_1 n lowbyte) = 0"
    "got_signal (wrap_2 n lowbyte) = 0"
    by (simp_all add: wrap_state_def wrap_1_def wrap_2_def init_state_def)
  have e: "deliver (ev_signal (read_event bs 0)) s = s"
    "deliver (ev_signal (read_event bs 15)) s = s\<lparr> got_signal := 15 \<rparr>" for bs s
    by (simp_all add: read_event_def deliver_def handler_def)
  have "main_loop (wrap_state (n + 2) lowbyte)
          [read_event (replicate (Suc n) 65) 0, read_event [10] 0, read_event [66] 15] =
        main_loop (wrap_1 n lowbyte) [read_event [10] 0, read_event [66] 15]"
    unfolding main_loop_step [OF g(1) turn_1] e ..
  also have "\<dots> = main_loop (wrap_2 n lowbyte) [read_event [66] 15]"
    unfolding main_loop_step [OF g(2) turn_2] e ..
  also have "\<dots> = main_loop ((wrap_3 n lowbyte)\<lparr> got_signal := 15 \<rparr>) []"
    unfolding main_loop_step [OF g(3) turn_3] e ..
  also have "\<dots> = Some ((wrap_3 n lowbyte)\<lparr> got_signal := 15 \<rparr>)"
    by simp
  finally show ?thesis .
qed

text \<open>
  C9: the code departs from it where a drain starts at the start of the arena. With an
  arena of \<open>n + 2\<close> bytes and the log file open, the pty delivers \<open>n + 1\<close>
  letters A, then a newline, then the letter B, in three reads. The newline takes the
  last byte of the arena, so B is drained from its first byte, and the byte that
  \<open>*(ptr-1)\<close> reads there is \<open>below\<close>, outside the arena: B gets a timestamp
  exactly when that byte happens to be a newline. The raw stream has a line start at B
  (the byte before it is the newline), and one call of \<open>writelog\<close> over the same
  bytes writes the timestamp.
\<close>

theorem stamp_missing_at_arena_start:
  "map_option logfile
     (main_loop (wrap_state (n + 2) lowbyte)
        [read_event (replicate (Suc n) 65) 0, read_event [10] 0, read_event [66] 15]) =
     Some (Stamp 0 # replicate (Suc n) (Data 65) @ [Data 10] @
           (if lowbyte = 10 then [Stamp 1] else []) @ [Data 66]) \<and>
   snd (writelog_loop logger_init lowbyte (replicate (Suc n) 65 @ [10, 66])) =
     Stamp 0 # replicate (Suc n) (Data 65) @ [Data 10, Stamp 1, Data 66] \<and>
   line_start True lowbyte (replicate (Suc n) 65 @ [10, 66]) (n + 2)"
proof -
  have a: "map_option logfile
     (main_loop (wrap_state (n + 2) lowbyte)
        [read_event (replicate (Suc n) 65) 0, read_event [10] 0, read_event [66] 15]) =
     Some (Stamp 0 # replicate (Suc n) (Data 65) @ [Data 10] @
           (if lowbyte = 10 then [Stamp 1] else []) @ [Data 66])"
    unfolding wrap_run by (simp add: wrap_3_def)
  have b: "snd (writelog_loop logger_init lowbyte (replicate (Suc n) 65 @ [10, 66])) =
     Stamp 0 # replicate (Suc n) (Data 65) @ [Data 10, Stamp 1, Data 66]"
    unfolding writelog_loop_append writelog_loop_first
    by (simp add: writelog_byte_def esc_step_def del: replicate.simps)
  have "(lowbyte # replicate (Suc n) 65 @ [10, 66]) ! (n + 2) = 10"
    by (simp add: nth_append nth_Cons')
  then have c: "line_start True lowbyte (replicate (Suc n) 65 @ [10, 66]) (n + 2)"
    unfolding line_start_def by (rule disjI1)
  from a b c show ?thesis by (intro conjI)
qed

theorem stamp_missing_at_arena_start_witness:
  "map_option logfile
     (main_loop (wrap_state 4 0) [read_event [65, 65, 65] 0, read_event [10] 0, read_event [66] 15]) =
     Some [Stamp 0, Data 65, Data 65, Data 65, Data 10, Data 66] \<and>
   snd (writelog_loop logger_init 0 [65, 65, 65, 10, 66]) =
     [Stamp 0, Data 65, Data 65, Data 65, Data 10, Stamp 1, Data 66] \<and>
   map_option logfile
     (main_loop (wrap_state 1048576 0)
        [read_event (replicate 1048575 65) 0, read_event [10] 0, read_event [66] 15]) =
     Some (Stamp 0 # replicate 1048575 (Data 65) @ [Data 10, Data 66]) \<and>
   snd (writelog_loop logger_init 0 (replicate 1048575 65 @ [10, 66])) =
     Stamp 0 # replicate 1048575 (Data 65) @ [Data 10, Stamp 1, Data 66]"
proof -
  have r: "replicate (Suc 2) (65 :: byte) = [65, 65, 65]"
    "replicate (Suc 2) (Data 65) = [Data 65, Data 65, Data 65]" "(2 :: nat) + 2 = 4"
    by (simp_all add: numeral_2_eq_2)
  note small = stamp_missing_at_arena_start [of 2 0, unfolded r]
  have q: "Suc 1048574 = 1048575" "(1048574 :: nat) + 2 = 1048576"
    by simp_all
  note real = stamp_missing_at_arena_start [of 1048574 0, unfolded q]
  from small [THEN conjunct1] small [THEN conjunct2, THEN conjunct1]
  have a: "map_option logfile
     (main_loop (wrap_state 4 0) [read_event [65, 65, 65] 0, read_event [10] 0, read_event [66] 15]) =
     Some [Stamp 0, Data 65, Data 65, Data 65, Data 10, Data 66] \<and>
   snd (writelog_loop logger_init 0 [65, 65, 65, 10, 66]) =
     [Stamp 0, Data 65, Data 65, Data 65, Data 10, Stamp 1, Data 66]"
    by simp
  from real [THEN conjunct1]
  have b: "map_option logfile
     (main_loop (wrap_state 1048576 0)
        [read_event (replicate 1048575 65) 0, read_event [10] 0, read_event [66] 15]) =
     Some (Stamp 0 # replicate 1048575 (Data 65) @ [Data 10, Data 66])"
    by simp
  note c = real [THEN conjunct2, THEN conjunct1]
  show ?thesis
    by (rule conjI [OF a [THEN conjunct1] conjI [OF a [THEN conjunct2] conjI [OF b c]]])
qed

end
